theory Spec2Isabelle
  imports Main
begin

section \<open>Data model\<close>

text \<open>
  The network-change reconciler of \<^verbatim>\<open>pkg/controller/change/network/controller.go\<close>. The
  entity types it works on are declared in \<^verbatim>\<open>pkg/types/change\<close>, which is not among the
  sources at hand; they are taken from the data model of the specification, with the fields
  the reconciler reads and writes.
\<close>

text \<open>
  Modelled from the spec: the enums \<^verbatim>\<open>Phase\<close>, \<^verbatim>\<open>State\<close> and \<^verbatim>\<open>Reason\<close> of
  \<^verbatim>\<open>Status\<close>, in the order the specification lists them. The first constructor of each
  is the zero value a freshly allocated Go struct carries.
\<close>

datatype Phase = CHANGE | ROLLBACK

datatype State = PENDING | RUNNING | COMPLETE | FAILED

datatype Reason = NONE | ERROR

text \<open>Modelled from the spec: \<^verbatim>\<open>Status\<close>, with \<^verbatim>\<open>Status.Phase\<close>, \<^verbatim>\<open>Status.State\<close> and
  \<^verbatim>\<open>Status.Reason\<close>.\<close>

record Status =
  Phase :: Phase
  State :: State
  Reason :: Reason

type_synonym ID = string

text \<open>
  Modelled from the spec: \<^verbatim>\<open>Index\<close> is the "monotonically increasing integer" of the data
  model; the Go declaration of \<^verbatim>\<open>networktypes.Index\<close> is not part of the sources at hand,
  so indexes are natural numbers.
\<close>

type_synonym Index = nat

type_synonym Values = "(string \<times> string) list"

text \<open>
  Modelled from the spec: \<^verbatim>\<open>DeviceChangeRef\<close>, an element of \<^verbatim>\<open>NetworkChange.Changes\<close>.
  The fields are prefixed because the three entity types share the field names \<^verbatim>\<open>ID\<close> and
  \<^verbatim>\<open>Index\<close>: \<open>ref_ID\<close> is \<^verbatim>\<open>change.ID\<close> of a ref, \<open>dc_ID\<close> that of a device change,
  \<open>nc_ID\<close> that of a network change.
\<close>

record DeviceChangeRef =
  ref_ID :: ID
  ref_Index :: Index
  ref_DeviceID :: string
  ref_DeviceVersion :: string
  ref_Values :: Values

text \<open>Modelled from the spec: \<^verbatim>\<open>DeviceChange\<close> (\<^verbatim>\<open>devicetypes.Change\<close> in the source).\<close>

record DeviceChange =
  dc_ID :: ID
  dc_Index :: Index
  dc_NetworkChangeID :: ID
  dc_DeviceID :: string
  dc_DeviceVersion :: string
  dc_Values :: Values
  dc_Status :: Status

text \<open>Modelled from the spec: \<^verbatim>\<open>NetworkChange\<close>.\<close>

record NetworkChange =
  nc_ID :: ID
  nc_Index :: Index
  nc_Changes :: "DeviceChangeRef list"
  nc_Status :: Status

text \<open>
  What a call can end with besides a boolean: \<open>StoreError\<close> is a non-nil \<^verbatim>\<open>error\<close>
  returned by a store call and handed on by the reconciler; \<open>NilPanic\<close> is the run-time
  panic of Go on reading a field through a nil pointer. A Go result \<^verbatim>\<open>(b, nil)\<close> is
  \<open>Inr b\<close>; every \<^verbatim>\<open>return false, err\<close> with a non-nil \<^verbatim>\<open>err\<close> is \<open>Inl StoreError\<close>.
\<close>

datatype error = StoreError | NilPanic

text \<open>
  \<^verbatim>\<open>Reconciler\<close>: the struct of the source holds the two stores and \<^verbatim>\<open>changeIndex\<close>. The
  stores are external; here each is the list of the entities it holds, and the record
  carries in addition what the stores take from their environment: \<open>faults\<close> is the
  script of transient failures (every store call takes the head of the script and fails
  with an error when it is \<open>True\<close>; an empty script means that no further call fails), and
  \<open>newChangeID\<close> is the identifier the device-change store assigns to the entity it
  creates at a given index.
\<close>

record Reconciler =
  networkChanges :: "NetworkChange list"
  deviceChanges :: "DeviceChange list"
  changeIndex :: Index
  faults :: "bool list"
  newChangeID :: "Index \<Rightarrow> ID"

section \<open>Store clients\<close>

text \<open>
  The store implementations (\<^verbatim>\<open>pkg/store/change/network\<close>, \<^verbatim>\<open>pkg/store/change/device\<close>)
  are not among the sources at hand; the operations the reconciler calls follow the store
  contract of the specification.
\<close>

text \<open>
  Modelled from the spec: any store call "may fail" with a transient error (network,
  timeout, stale revision). \<open>storeCall\<close> decides it from the script and consumes one entry.
\<close>

definition storeCall :: "Reconciler \<Rightarrow> bool \<times> Reconciler" where
  "storeCall r = (case faults r of [] \<Rightarrow> (False, r) | f # fs \<Rightarrow> (f, r\<lparr>faults := fs\<rparr>))"

text \<open>
  Modelled from the spec: \<^verbatim>\<open>Get(ID) -> (*Entity, error)\<close> of the network-change store. An
  absent identifier gives a nil entity and no error: \<^verbatim>\<open>Reconcile\<close> tests the entity for
  nil after having tested the error.
\<close>

definition networkChanges_Get ::
  "Reconciler \<Rightarrow> ID \<Rightarrow> (error + NetworkChange option) \<times> Reconciler" where
  "networkChanges_Get r i =
     (case storeCall r of (failed, r') \<Rightarrow>
        if failed then (Inl StoreError, r')
        else (Inr (find (\<lambda>c. nc_ID c = i) (networkChanges r')), r'))"

text \<open>Modelled from the spec: \<^verbatim>\<open>GetByIndex(Index) -> (*Entity, error)\<close>, "returning nil on gap".\<close>

definition networkChanges_GetByIndex ::
  "Reconciler \<Rightarrow> Index \<Rightarrow> (error + NetworkChange option) \<times> Reconciler" where
  "networkChanges_GetByIndex r i =
     (case storeCall r of (failed, r') \<Rightarrow>
        if failed then (Inl StoreError, r')
        else (Inr (find (\<lambda>c. nc_Index c = i) (networkChanges r')), r'))"

text \<open>
  Modelled from the spec: \<^verbatim>\<open>LastIndex() -> (Index, error)\<close>, the greatest index in the store
  (0 when it is empty).
\<close>

definition networkChanges_LastIndex :: "Reconciler \<Rightarrow> (error + Index) \<times> Reconciler" where
  "networkChanges_LastIndex r =
     (case storeCall r of (failed, r') \<Rightarrow>
        if failed then (Inl StoreError, r')
        else (Inr (foldr (\<lambda>c m. max (nc_Index c) m) (networkChanges r') 0), r'))"

text \<open>
  Modelled from the spec: \<^verbatim>\<open>Update(*Entity) -> error\<close> of the network-change store. The
  entity replaces the stored one of the same identifier; updating an entity the store does
  not hold is an error.
\<close>

definition networkChanges_Update ::
  "Reconciler \<Rightarrow> NetworkChange \<Rightarrow> (error + unit) \<times> Reconciler" where
  "networkChanges_Update r c =
     (case storeCall r of (failed, r') \<Rightarrow>
        if failed \<or> find (\<lambda>x. nc_ID x = nc_ID c) (networkChanges r') = None
        then (Inl StoreError, r')
        else (Inr (),
              r'\<lparr>networkChanges :=
                   map (\<lambda>x. if nc_ID x = nc_ID c then c else x) (networkChanges r')\<rparr>))"

text \<open>
  Modelled from the spec: \<^verbatim>\<open>Get(ID) -> (*Entity, error)\<close> of the device-change store, with the
  contract of the network-change store: nil and no error for an absent identifier.
\<close>

definition deviceChanges_Get ::
  "Reconciler \<Rightarrow> ID \<Rightarrow> (error + DeviceChange option) \<times> Reconciler" where
  "deviceChanges_Get r i =
     (case storeCall r of (failed, r') \<Rightarrow>
        if failed then (Inl StoreError, r')
        else (Inr (find (\<lambda>d. dc_ID d = i) (deviceChanges r')), r'))"

text \<open>
  Modelled from the spec: \<^verbatim>\<open>Create(*Entity) -> error\<close>, which "assigns ID and Index, monotone":
  the index after the greatest one in the store, and the identifier the store has for it.
  The pointer handed in is filled in, so the created entity is returned.
\<close>

definition deviceChanges_Create ::
  "Reconciler \<Rightarrow> DeviceChange \<Rightarrow> (error + DeviceChange) \<times> Reconciler" where
  "deviceChanges_Create r d =
     (case storeCall r of (failed, r') \<Rightarrow>
        if failed then (Inl StoreError, r')
        else (let i = Suc (foldr (\<lambda>x m. max (dc_Index x) m) (deviceChanges r') 0);
                  d' = d\<lparr>dc_ID := newChangeID r' i, dc_Index := i\<rparr>
              in (Inr d', r'\<lparr>deviceChanges := deviceChanges r' @ [d']\<rparr>)))"

text \<open>Modelled from the spec: \<^verbatim>\<open>Update(*Entity) -> error\<close> of the device-change store.\<close>

definition deviceChanges_Update ::
  "Reconciler \<Rightarrow> DeviceChange \<Rightarrow> (error + unit) \<times> Reconciler" where
  "deviceChanges_Update r d =
     (case storeCall r of (failed, r') \<Rightarrow>
        if failed \<or> find (\<lambda>x. dc_ID x = dc_ID d) (deviceChanges r') = None
        then (Inl StoreError, r')
        else (Inr (),
              r'\<lparr>deviceChanges :=
                   map (\<lambda>x. if dc_ID x = dc_ID d then d else x) (deviceChanges r')\<rparr>))"

section \<open>The reconciler\<close>

subsection \<open>Materialising the device changes\<close>

text \<open>
  \<^verbatim>\<open>ensureDeviceChanges\<close>: the loop over \<^verbatim>\<open>config.Changes\<close>. The refs are pointers, so the
  assignments to \<^verbatim>\<open>change.ID\<close> and \<^verbatim>\<open>change.Index\<close> change the network change in memory;
  the loop returns the list of refs as it leaves them. The device change handed to
  \<^verbatim>\<open>Create\<close> has the zero \<^verbatim>\<open>Status\<close>.
\<close>

fun ensureDeviceChanges_loop ::
  "ID \<Rightarrow> DeviceChangeRef list \<Rightarrow> bool \<Rightarrow> Reconciler
     \<Rightarrow> (error + bool) \<times> DeviceChangeRef list \<times> Reconciler" where
  "ensureDeviceChanges_loop config_ID [] updated r = (Inr updated, [], r)"
| "ensureDeviceChanges_loop config_ID (change # rest) updated r =
     (if ref_ID change = []
      then (case deviceChanges_Create r
                   \<lparr>dc_ID = [], dc_Index = 0, dc_NetworkChangeID = config_ID,
                    dc_DeviceID = ref_DeviceID change,
                    dc_DeviceVersion = ref_DeviceVersion change,
                    dc_Values = ref_Values change,
                    dc_Status = \<lparr>Phase = CHANGE, State = PENDING, Reason = NONE\<rparr>\<rparr> of
              (Inl e, r1) \<Rightarrow> (Inl e, change # rest, r1)
            | (Inr deviceChange, r1) \<Rightarrow>
                (case ensureDeviceChanges_loop config_ID rest True r1 of
                   (res, rest', r2) \<Rightarrow>
                     (res,
                      change\<lparr>ref_ID := dc_ID deviceChange,
                             ref_Index := dc_Index deviceChange\<rparr> # rest',
                      r2)))
      else (case ensureDeviceChanges_loop config_ID rest updated r of
              (res, rest', r2) \<Rightarrow> (res, change # rest', r2)))"

definition ensureDeviceChanges ::
  "Reconciler \<Rightarrow> NetworkChange \<Rightarrow> (error + bool) \<times> NetworkChange \<times> Reconciler" where
  "ensureDeviceChanges r config =
     (case ensureDeviceChanges_loop (nc_ID config) (nc_Changes config) False r of
        (Inl e, refs, r1) \<Rightarrow> (Inl e, config\<lparr>nc_Changes := refs\<rparr>, r1)
      | (Inr updated, refs, r1) \<Rightarrow>
          (let config' = config\<lparr>nc_Changes := refs\<rparr> in
           if updated
           then (case networkChanges_Update r1 config' of
                   (Inl e, r2) \<Rightarrow> (Inl e, config', r2)
                 | (Inr u, r2) \<Rightarrow> (Inr updated, config', r2))
           else (Inr updated, config', r1)))"

subsection \<open>Admission\<close>

text \<open>\<^verbatim>\<open>isIntersectingChange\<close>: the two nested loops return at the first equal pair.\<close>

definition isIntersectingChange :: "NetworkChange \<Rightarrow> NetworkChange \<Rightarrow> bool" where
  "isIntersectingChange config history =
     list_ex (\<lambda>configChange.
        list_ex (\<lambda>historyChange. ref_DeviceID configChange = ref_DeviceID historyChange)
          (nc_Changes history))
       (nc_Changes config)"

text \<open>
  \<^verbatim>\<open>canApplyChange\<close>: the counted loop \<^verbatim>\<open>for index := r.changeIndex; index < change.Index;
  index++\<close>. Neither the counter nor the bound is assigned in the body, so the loop runs over
  the indexes \<open>[changeIndex r..<nc_Index change]\<close> as they are on entry, while \<^verbatim>\<open>r.changeIndex\<close>
  itself is incremented in the body.
\<close>

fun canApplyChange_loop ::
  "NetworkChange \<Rightarrow> Index list \<Rightarrow> bool \<Rightarrow> Reconciler \<Rightarrow> (error + bool) \<times> Reconciler" where
  "canApplyChange_loop change [] sequential r = (Inr True, r)"
| "canApplyChange_loop change (index # rest) sequential r =
     (case networkChanges_GetByIndex r index of
        (Inl e, r1) \<Rightarrow> (Inl e, r1)
      | (Inr None, r1) \<Rightarrow> canApplyChange_loop change rest sequential r1
      | (Inr (Some priorChange), r1) \<Rightarrow>
          if State (nc_Status priorChange) = PENDING \<or> State (nc_Status priorChange) = RUNNING
          then (if isIntersectingChange change priorChange then (Inr False, r1)
                else canApplyChange_loop change rest False r1)
          else (if sequential
                then canApplyChange_loop change rest sequential
                       (r1\<lparr>changeIndex := changeIndex r1 + 1\<rparr>)
                else canApplyChange_loop change rest sequential r1))"

definition canApplyChange :: "Reconciler \<Rightarrow> NetworkChange \<Rightarrow> (error + bool) \<times> Reconciler" where
  "canApplyChange r change =
     canApplyChange_loop change [changeIndex r..<nc_Index change] True r"

text \<open>
  \<^verbatim>\<open>canApplyRollback\<close>: the loop \<^verbatim>\<open>for index := change.Index + 1; index <= lastIndex;
  index++\<close>. The \<^verbatim>\<open>return false, err\<close> of the blocking case is reached with a nil
  \<^verbatim>\<open>err\<close> only, the other branch of the same conditional having taken the non-nil one.
\<close>

fun canApplyRollback_loop ::
  "NetworkChange \<Rightarrow> Index list \<Rightarrow> Reconciler \<Rightarrow> (error + bool) \<times> Reconciler" where
  "canApplyRollback_loop change [] r = (Inr True, r)"
| "canApplyRollback_loop change (index # rest) r =
     (case networkChanges_GetByIndex r index of
        (Inl e, r1) \<Rightarrow> (Inl e, r1)
      | (Inr None, r1) \<Rightarrow> canApplyRollback_loop change rest r1
      | (Inr (Some futureChange), r1) \<Rightarrow>
          if isIntersectingChange change futureChange
             \<and> State (nc_Status futureChange) \<noteq> COMPLETE
             \<and> State (nc_Status futureChange) \<noteq> FAILED
          then (Inr False, r1)
          else canApplyRollback_loop change rest r1)"

definition canApplyRollback :: "Reconciler \<Rightarrow> NetworkChange \<Rightarrow> (error + bool) \<times> Reconciler" where
  "canApplyRollback r change =
     (case networkChanges_LastIndex r of
        (Inl e, r1) \<Rightarrow> (Inl e, r1)
      | (Inr lastIndex, r1) \<Rightarrow>
          canApplyRollback_loop change [nc_Index change + 1..<lastIndex + 1] r1)"

subsection \<open>The CHANGE phase\<close>

text \<open>
  \<^verbatim>\<open>reconcilePendingChange\<close>. The assignment \<^verbatim>\<open>change.Status.State = RUNNING\<close> is made on
  the copy in memory, which \<^verbatim>\<open>Update\<close> then writes.
\<close>

definition reconcilePendingChange ::
  "Reconciler \<Rightarrow> NetworkChange \<Rightarrow> (error + bool) \<times> Reconciler" where
  "reconcilePendingChange r change =
     (case canApplyChange r change of
        (Inl e, r1) \<Rightarrow> (Inl e, r1)
      | (Inr canApply, r1) \<Rightarrow>
          if \<not> canApply then (Inr False, r1)
          else (case networkChanges_Update r1
                       (change\<lparr>nc_Status := (nc_Status change)\<lparr>State := RUNNING\<rparr>\<rparr>) of
                  (Inl e, r2) \<Rightarrow> (Inl e, r2)
                | (Inr u, r2) \<Rightarrow> (Inr True, r2)))"

text \<open>
  \<^verbatim>\<open>getDeviceChanges\<close>: one \<^verbatim>\<open>Get\<close> for each ref; what \<^verbatim>\<open>Get\<close> returns is stored as it
  is, a nil pointer (\<open>None\<close>) included.
\<close>

fun getDeviceChanges_loop ::
  "DeviceChangeRef list \<Rightarrow> Reconciler \<Rightarrow> (error + DeviceChange option list) \<times> Reconciler" where
  "getDeviceChanges_loop [] r = (Inr [], r)"
| "getDeviceChanges_loop (changeReq # rest) r =
     (case deviceChanges_Get r (ref_ID changeReq) of
        (Inl e, r1) \<Rightarrow> (Inl e, r1)
      | (Inr deviceChange, r1) \<Rightarrow>
          (case getDeviceChanges_loop rest r1 of
             (Inl e, r2) \<Rightarrow> (Inl e, r2)
           | (Inr found, r2) \<Rightarrow> (Inr (deviceChange # found), r2)))"

definition getDeviceChanges ::
  "Reconciler \<Rightarrow> NetworkChange \<Rightarrow> (error + DeviceChange option list) \<times> Reconciler" where
  "getDeviceChanges r change = getDeviceChanges_loop (nc_Changes change) r"

text \<open>
  \<^verbatim>\<open>ensureDeviceChangesRunning\<close>. The slice holds pointers: reading
  \<^verbatim>\<open>deviceChange.Status.State\<close> through a nil one panics, and the assignment changes the
  element in memory, so the loop returns the slice as it leaves it.
\<close>

fun ensureDeviceChangesRunning_loop ::
  "DeviceChange option list \<Rightarrow> bool \<Rightarrow> Reconciler
     \<Rightarrow> (error + bool) \<times> DeviceChange option list \<times> Reconciler" where
  "ensureDeviceChangesRunning_loop [] updated r = (Inr updated, [], r)"
| "ensureDeviceChangesRunning_loop (None # rest) updated r = (Inl NilPanic, None # rest, r)"
| "ensureDeviceChangesRunning_loop (Some deviceChange # rest) updated r =
     (if State (dc_Status deviceChange) = PENDING
      then (let deviceChange' =
                  deviceChange\<lparr>dc_Status := (dc_Status deviceChange)\<lparr>State := RUNNING\<rparr>\<rparr>
            in case deviceChanges_Update r deviceChange' of
                 (Inl e, r1) \<Rightarrow> (Inl e, Some deviceChange' # rest, r1)
               | (Inr u, r1) \<Rightarrow>
                   (case ensureDeviceChangesRunning_loop rest True r1 of
                      (res, rest', r2) \<Rightarrow> (res, Some deviceChange' # rest', r2)))
      else (case ensureDeviceChangesRunning_loop rest updated r of
              (res, rest', r2) \<Rightarrow> (res, Some deviceChange # rest', r2)))"

definition ensureDeviceChangesRunning ::
  "Reconciler \<Rightarrow> DeviceChange option list
     \<Rightarrow> (error + bool) \<times> DeviceChange option list \<times> Reconciler" where
  "ensureDeviceChangesRunning r changes = ensureDeviceChangesRunning_loop changes False r"

fun isDeviceChangesComplete :: "DeviceChange option list \<Rightarrow> error + bool" where
  "isDeviceChangesComplete [] = Inr True"
| "isDeviceChangesComplete (None # rest) = Inl NilPanic"
| "isDeviceChangesComplete (Some change # rest) =
     (if State (dc_Status change) \<noteq> COMPLETE then Inr False
      else isDeviceChangesComplete rest)"

fun isDeviceChangesFailed :: "DeviceChange option list \<Rightarrow> error + bool" where
  "isDeviceChangesFailed [] = Inr False"
| "isDeviceChangesFailed (None # rest) = Inl NilPanic"
| "isDeviceChangesFailed (Some change # rest) =
     (if State (dc_Status change) = FAILED then Inr True
      else isDeviceChangesFailed rest)"

fun ensureDeviceChangeRollbacksRunning_loop ::
  "DeviceChange option list \<Rightarrow> bool \<Rightarrow> Reconciler
     \<Rightarrow> (error + bool) \<times> DeviceChange option list \<times> Reconciler" where
  "ensureDeviceChangeRollbacksRunning_loop [] updated r = (Inr updated, [], r)"
| "ensureDeviceChangeRollbacksRunning_loop (None # rest) updated r =
     (Inl NilPanic, None # rest, r)"
| "ensureDeviceChangeRollbacksRunning_loop (Some deviceChange # rest) updated r =
     (if Phase (dc_Status deviceChange) = CHANGE \<and> State (dc_Status deviceChange) \<noteq> FAILED
      then (let deviceChange' =
                  deviceChange\<lparr>dc_Status :=
                    (dc_Status deviceChange)\<lparr>Phase := ROLLBACK, State := RUNNING\<rparr>\<rparr>
            in case deviceChanges_Update r deviceChange' of
                 (Inl e, r1) \<Rightarrow> (Inl e, Some deviceChange' # rest, r1)
               | (Inr u, r1) \<Rightarrow>
                   (case ensureDeviceChangeRollbacksRunning_loop rest True r1 of
                      (res, rest', r2) \<Rightarrow> (res, Some deviceChange' # rest', r2)))
      else (case ensureDeviceChangeRollbacksRunning_loop rest updated r of
              (res, rest', r2) \<Rightarrow> (res, Some deviceChange # rest', r2)))"

definition ensureDeviceChangeRollbacksRunning ::
  "Reconciler \<Rightarrow> DeviceChange option list
     \<Rightarrow> (error + bool) \<times> DeviceChange option list \<times> Reconciler" where
  "ensureDeviceChangeRollbacksRunning r changes =
     ensureDeviceChangeRollbacksRunning_loop changes False r"

fun isDeviceChangeRollbacksComplete :: "DeviceChange option list \<Rightarrow> error + bool" where
  "isDeviceChangeRollbacksComplete [] = Inr True"
| "isDeviceChangeRollbacksComplete (None # rest) = Inl NilPanic"
| "isDeviceChangeRollbacksComplete (Some deviceChange # rest) =
     (if Phase (dc_Status deviceChange) = ROLLBACK \<and> State (dc_Status deviceChange) \<noteq> COMPLETE
      then Inr False
      else isDeviceChangeRollbacksComplete rest)"

text \<open>
  \<^verbatim>\<open>reconcileRunningChange\<close>. In the rollback-on-failure branch the function falls through
  to the final \<^verbatim>\<open>return true, nil\<close> when the rollbacks are not complete yet.
\<close>

definition reconcileRunningChange ::
  "Reconciler \<Rightarrow> NetworkChange \<Rightarrow> (error + bool) \<times> Reconciler" where
  "reconcileRunningChange r change =
     (case getDeviceChanges r change of
        (Inl e, r1) \<Rightarrow> (Inl e, r1)
      | (Inr deviceChanges0, r1) \<Rightarrow>
     (case ensureDeviceChangesRunning r1 deviceChanges0 of
        (Inl e, deviceChanges1, r2) \<Rightarrow> (Inl e, r2)
      | (Inr succeeded, deviceChanges1, r2) \<Rightarrow>
     if succeeded then (Inr True, r2)
     else
     (case isDeviceChangesComplete deviceChanges1 of
        Inl e \<Rightarrow> (Inl e, r2)
      | Inr True \<Rightarrow>
          (case networkChanges_Update r2
                  (change\<lparr>nc_Status := (nc_Status change)\<lparr>State := COMPLETE\<rparr>\<rparr>) of
             (Inl e, r3) \<Rightarrow> (Inl e, r3)
           | (Inr u, r3) \<Rightarrow> (Inr True, r3))
      | Inr False \<Rightarrow>
     (case isDeviceChangesFailed deviceChanges1 of
        Inl e \<Rightarrow> (Inl e, r2)
      | Inr False \<Rightarrow> (Inr True, r2)
      | Inr True \<Rightarrow>
     (case ensureDeviceChangeRollbacksRunning r2 deviceChanges1 of
        (Inl e, deviceChanges2, r3) \<Rightarrow> (Inl e, r3)
      | (Inr succeeded', deviceChanges2, r3) \<Rightarrow>
     if succeeded' then (Inr True, r3)
     else
     (case isDeviceChangeRollbacksComplete deviceChanges2 of
        Inl e \<Rightarrow> (Inl e, r3)
      | Inr False \<Rightarrow> (Inr True, r3)
      | Inr True \<Rightarrow>
          (case networkChanges_Update r3
                  (change\<lparr>nc_Status :=
                     (nc_Status change)\<lparr>State := PENDING, Reason := ERROR\<rparr>\<rparr>) of
             (Inl e, r4) \<Rightarrow> (Inl e, r4)
           | (Inr u, r4) \<Rightarrow> (Inr True, r4))))))))"

definition reconcileChange ::
  "Reconciler \<Rightarrow> NetworkChange \<Rightarrow> (error + bool) \<times> Reconciler" where
  "reconcileChange r change =
     (case State (nc_Status change) of
        PENDING \<Rightarrow> reconcilePendingChange r change
      | RUNNING \<Rightarrow> reconcileRunningChange r change
      | _ \<Rightarrow> (Inr True, r))"

subsection \<open>The ROLLBACK phase\<close>

text \<open>
  The three loops of the ROLLBACK phase get each device change anew and read its
  \<^verbatim>\<open>Status\<close> without testing the pointer for nil.
\<close>

fun ensureDeviceRollbacks_loop ::
  "DeviceChangeRef list \<Rightarrow> bool \<Rightarrow> Reconciler \<Rightarrow> (error + bool) \<times> Reconciler" where
  "ensureDeviceRollbacks_loop [] updated r = (Inr updated, r)"
| "ensureDeviceRollbacks_loop (changeReq # rest) updated r =
     (case deviceChanges_Get r (ref_ID changeReq) of
        (Inl e, r1) \<Rightarrow> (Inl e, r1)
      | (Inr None, r1) \<Rightarrow> (Inl NilPanic, r1)
      | (Inr (Some deviceChange), r1) \<Rightarrow>
          if Phase (dc_Status deviceChange) \<noteq> ROLLBACK
          then (case deviceChanges_Update r1
                       (deviceChange\<lparr>dc_Status :=
                          (dc_Status deviceChange)\<lparr>Phase := ROLLBACK, State := PENDING\<rparr>\<rparr>) of
                  (Inl e, r2) \<Rightarrow> (Inl e, r2)
                | (Inr u, r2) \<Rightarrow> ensureDeviceRollbacks_loop rest True r2)
          else ensureDeviceRollbacks_loop rest updated r1)"

definition ensureDeviceRollbacks ::
  "Reconciler \<Rightarrow> NetworkChange \<Rightarrow> (error + bool) \<times> Reconciler" where
  "ensureDeviceRollbacks r change = ensureDeviceRollbacks_loop (nc_Changes change) False r"

definition reconcilePendingRollback ::
  "Reconciler \<Rightarrow> NetworkChange \<Rightarrow> (error + bool) \<times> Reconciler" where
  "reconcilePendingRollback r change =
     (case canApplyRollback r change of
        (Inl e, r1) \<Rightarrow> (Inl e, r1)
      | (Inr canApply, r1) \<Rightarrow>
          if \<not> canApply then (Inr False, r1)
          else (case networkChanges_Update r1
                       (change\<lparr>nc_Status := (nc_Status change)\<lparr>State := RUNNING\<rparr>\<rparr>) of
                  (Inl e, r2) \<Rightarrow> (Inl e, r2)
                | (Inr u, r2) \<Rightarrow> (Inr True, r2)))"

fun ensureDeviceRollbacksRunning_loop ::
  "DeviceChangeRef list \<Rightarrow> bool \<Rightarrow> Reconciler \<Rightarrow> (error + bool) \<times> Reconciler" where
  "ensureDeviceRollbacksRunning_loop [] updated r = (Inr updated, r)"
| "ensureDeviceRollbacksRunning_loop (changeReq # rest) updated r =
     (case deviceChanges_Get r (ref_ID changeReq) of
        (Inl e, r1) \<Rightarrow> (Inl e, r1)
      | (Inr None, r1) \<Rightarrow> (Inl NilPanic, r1)
      | (Inr (Some deviceChange), r1) \<Rightarrow>
          if State (dc_Status deviceChange) = PENDING
          then (case deviceChanges_Update r1
                       (deviceChange\<lparr>dc_Status :=
                          (dc_Status deviceChange)\<lparr>State := RUNNING\<rparr>\<rparr>) of
                  (Inl e, r2) \<Rightarrow> (Inl e, r2)
                | (Inr u, r2) \<Rightarrow> ensureDeviceRollbacksRunning_loop rest True r2)
          else ensureDeviceRollbacksRunning_loop rest updated r1)"

definition ensureDeviceRollbacksRunning ::
  "Reconciler \<Rightarrow> NetworkChange \<Rightarrow> (error + bool) \<times> Reconciler" where
  "ensureDeviceRollbacksRunning r change =
     ensureDeviceRollbacksRunning_loop (nc_Changes change) False r"

fun isRollbackComplete_loop ::
  "DeviceChangeRef list \<Rightarrow> nat \<Rightarrow> Reconciler \<Rightarrow> (error + nat) \<times> Reconciler" where
  "isRollbackComplete_loop [] complete r = (Inr complete, r)"
| "isRollbackComplete_loop (changeReq # rest) complete r =
     (case deviceChanges_Get r (ref_ID changeReq) of
        (Inl e, r1) \<Rightarrow> (Inl e, r1)
      | (Inr None, r1) \<Rightarrow> (Inl NilPanic, r1)
      | (Inr (Some deviceChange), r1) \<Rightarrow>
          if State (dc_Status deviceChange) = COMPLETE
          then isRollbackComplete_loop rest (complete + 1) r1
          else isRollbackComplete_loop rest complete r1)"

definition isRollbackComplete ::
  "Reconciler \<Rightarrow> NetworkChange \<Rightarrow> (error + bool) \<times> Reconciler" where
  "isRollbackComplete r change =
     (case isRollbackComplete_loop (nc_Changes change) 0 r of
        (Inl e, r1) \<Rightarrow> (Inl e, r1)
      | (Inr complete, r1) \<Rightarrow> (Inr (complete = length (nc_Changes change)), r1))"

text \<open>
  \<^verbatim>\<open>reconcileRunningRollback\<close>. When the final \<^verbatim>\<open>Update\<close> fails the source has
  \<^verbatim>\<open>return false, nil\<close>: the error is not handed on.
\<close>

definition reconcileRunningRollback ::
  "Reconciler \<Rightarrow> NetworkChange \<Rightarrow> (error + bool) \<times> Reconciler" where
  "reconcileRunningRollback r change =
     (case ensureDeviceRollbacksRunning r change of
        (Inl e, r1) \<Rightarrow> (Inl e, r1)
      | (Inr succeeded, r1) \<Rightarrow>
     if succeeded then (Inr True, r1)
     else
     (case isRollbackComplete r1 change of
        (Inl e, r2) \<Rightarrow> (Inl e, r2)
      | (Inr complete, r2) \<Rightarrow>
     if \<not> complete then (Inr True, r2)
     else
     (case networkChanges_Update r2
             (change\<lparr>nc_Status := (nc_Status change)\<lparr>State := COMPLETE\<rparr>\<rparr>) of
        (Inl e, r3) \<Rightarrow> (Inr False, r3)
      | (Inr u, r3) \<Rightarrow> (Inr True, r3))))"

definition reconcileRollback ::
  "Reconciler \<Rightarrow> NetworkChange \<Rightarrow> (error + bool) \<times> Reconciler" where
  "reconcileRollback r change =
     (case ensureDeviceRollbacks r change of
        (Inl e, r1) \<Rightarrow> (Inl e, r1)
      | (Inr updated, r1) \<Rightarrow>
          if updated then (Inr True, r1)
          else (case State (nc_Status change) of
                  PENDING \<Rightarrow> reconcilePendingRollback r1 change
                | RUNNING \<Rightarrow> reconcileRunningRollback r1 change
                | _ \<Rightarrow> (Inr True, r1)))"

subsection \<open>Reconcile\<close>

definition Reconcile :: "Reconciler \<Rightarrow> ID \<Rightarrow> (error + bool) \<times> Reconciler" where
  "Reconcile r i =
     (case networkChanges_Get r i of
        (Inl e, r1) \<Rightarrow> (Inl e, r1)
      | (Inr None, r1) \<Rightarrow> (Inr True, r1)
      | (Inr (Some change0), r1) \<Rightarrow>
          (case ensureDeviceChanges r1 change0 of
             (Inl e, change, r2) \<Rightarrow> (Inl e, r2)
           | (Inr succeeded, change, r2) \<Rightarrow>
               if succeeded then (Inr True, r2)
               else (case Phase (nc_Status change) of
                       CHANGE \<Rightarrow> reconcileChange r2 change
                     | ROLLBACK \<Rightarrow> reconcileRollback r2 change)))"


section \<open>Auxiliary notions for the proofs\<close>

text \<open>
  What a call leaves untouched when it only reads, or only writes device changes: the
  network-change store, \<^verbatim>\<open>changeIndex\<close> and the identifier supply; and a script with no
  failure left stays so.
\<close>

definition net_same :: "Reconciler \<Rightarrow> Reconciler \<Rightarrow> bool" where
  "net_same r r' \<longleftrightarrow>
     networkChanges r' = networkChanges r \<and> changeIndex r' = changeIndex r \<and>
     newChangeID r' = newChangeID r \<and> (faults r = [] \<longrightarrow> faults r' = [])"

text \<open>
  The test of \<^verbatim>\<open>canApplyChange\<close> on the network change stored at one index, and the
  weaker one that the change stored there is in flight (PENDING or RUNNING).
\<close>

definition blocksChange :: "NetworkChange \<Rightarrow> Reconciler \<Rightarrow> Index \<Rightarrow> bool" where
  "blocksChange c r i =
     (case find (\<lambda>x. nc_Index x = i) (networkChanges r) of
        None \<Rightarrow> False
      | Some p \<Rightarrow> (State (nc_Status p) = PENDING \<or> State (nc_Status p) = RUNNING)
                   \<and> isIntersectingChange c p)"

definition inflightAt :: "Reconciler \<Rightarrow> Index \<Rightarrow> bool" where
  "inflightAt r i =
     (case find (\<lambda>x. nc_Index x = i) (networkChanges r) of
        None \<Rightarrow> False
      | Some p \<Rightarrow> State (nc_Status p) = PENDING \<or> State (nc_Status p) = RUNNING)"


text \<open>
  The invariant of the network-change store and \<^verbatim>\<open>changeIndex\<close>: identifiers and indexes
  are unique, and every network change below \<^verbatim>\<open>changeIndex\<close> is terminal (COMPLETE or
  FAILED).
\<close>

definition terminal :: "NetworkChange \<Rightarrow> bool" where
  "terminal c \<longleftrightarrow> State (nc_Status c) = COMPLETE \<or> State (nc_Status c) = FAILED"



text \<open>
  What \<^verbatim>\<open>ensureDeviceChanges\<close> does to one ref, given the device changes it created: a ref
  with an identifier is left alone; a ref without one gets the identifier and index of a
  created device change that carries the parent's identifier and the ref's device, version
  and values, in the zero status.
\<close>

definition materialises ::
  "ID \<Rightarrow> DeviceChange list \<Rightarrow> DeviceChangeRef \<Rightarrow> DeviceChangeRef \<Rightarrow> bool" where
  "materialises n created ref ref' =
     (if ref_ID ref = []
      then list_ex (\<lambda>d. ref' = ref\<lparr>ref_ID := dc_ID d, ref_Index := dc_Index d\<rparr> \<and>
                        dc_NetworkChangeID d = n \<and> dc_DeviceID d = ref_DeviceID ref \<and>
                        dc_DeviceVersion d = ref_DeviceVersion ref \<and>
                        dc_Values d = ref_Values ref \<and>
                        dc_Status d = \<lparr>Phase = CHANGE, State = PENDING, Reason = NONE\<rparr>)
             created
      else ref' = ref)"

text \<open>
  The assignment of the rollback-on-failure loop, \<^verbatim>\<open>ensureDeviceChangeRollbacksRunning\<close>,
  to one device change.
\<close>

definition rollbackOnFailure :: "DeviceChange \<Rightarrow> DeviceChange" where
  "rollbackOnFailure d =
     (if Phase (dc_Status d) = CHANGE \<and> State (dc_Status d) \<noteq> FAILED
      then d\<lparr>dc_Status := (dc_Status d)\<lparr>Phase := ROLLBACK, State := RUNNING\<rparr>\<rparr>
      else d)"

section \<open>Example stores\<close>

text \<open>
  Entities and reconcilers for the concrete runs below. The example store names the
  device change it creates at index \<open>n\<close> by \<open>n\<close> strokes after a fixed prefix.
\<close>

definition exampleRef :: "ID \<Rightarrow> Index \<Rightarrow> string \<Rightarrow> DeviceChangeRef" where
  "exampleRef i n d =
     \<lparr>ref_ID = i, ref_Index = n, ref_DeviceID = d, ref_DeviceVersion = ''1.0.0'',
      ref_Values = [(''/system/clock'', ''utc'')]\<rparr>"

definition exampleDeviceChange ::
  "ID \<Rightarrow> Index \<Rightarrow> ID \<Rightarrow> string \<Rightarrow> Phase \<Rightarrow> State \<Rightarrow> DeviceChange" where
  "exampleDeviceChange i n parent d p s =
     \<lparr>dc_ID = i, dc_Index = n, dc_NetworkChangeID = parent, dc_DeviceID = d,
      dc_DeviceVersion = ''1.0.0'', dc_Values = [(''/system/clock'', ''utc'')],
      dc_Status = \<lparr>Phase = p, State = s, Reason = NONE\<rparr>\<rparr>"

definition exampleNetworkChange ::
  "ID \<Rightarrow> Index \<Rightarrow> DeviceChangeRef list \<Rightarrow> Phase \<Rightarrow> State \<Rightarrow> NetworkChange" where
  "exampleNetworkChange i n refs p s =
     \<lparr>nc_ID = i, nc_Index = n, nc_Changes = refs,
      nc_Status = \<lparr>Phase = p, State = s, Reason = NONE\<rparr>\<rparr>"

definition exampleReconciler ::
  "NetworkChange list \<Rightarrow> DeviceChange list \<Rightarrow> Index \<Rightarrow> bool list \<Rightarrow> Reconciler" where
  "exampleReconciler ncs dcs k fs =
     \<lparr>networkChanges = ncs, deviceChanges = dcs, changeIndex = k, faults = fs,
      newChangeID = (\<lambda>n. ''device-change-'' @ replicate n (CHR ''i''))\<rparr>"


text \<open>
  A running change on \<open>d1\<close>, followed by a pending one on \<open>d2\<close> and a pending one on
  \<open>d1\<close>.
\<close>

definition twoRunning :: Reconciler where
  "twoRunning =
     exampleReconciler
       [exampleNetworkChange ''nc1'' 1 [exampleRef ''dc1'' 1 ''d1''] CHANGE RUNNING,
        exampleNetworkChange ''nc2'' 2 [exampleRef ''dc2'' 2 ''d2''] CHANGE PENDING,
        exampleNetworkChange ''nc3'' 3 [exampleRef ''dc3'' 3 ''d1''] CHANGE PENDING]
       [exampleDeviceChange ''dc1'' 1 ''nc1'' ''d1'' CHANGE RUNNING,
        exampleDeviceChange ''dc2'' 2 ''nc2'' ''d2'' CHANGE PENDING,
        exampleDeviceChange ''dc3'' 3 ''nc3'' ''d1'' CHANGE PENDING]
       0 []"


text \<open>
  The reconciler of \<open>startedQueue\<close> admits \<open>nc3\<close> and moves \<^verbatim>\<open>changeIndex\<close> past the two
  completed changes. In \<open>reopenedQueue\<close> an operator has since sent \<open>nc1\<close> to the ROLLBACK
  phase (state PENDING) and submitted \<open>nc4\<close> on the device of \<open>nc1\<close>.
\<close>

definition startedQueue :: Reconciler where
  "startedQueue =
     exampleReconciler
       [exampleNetworkChange ''nc1'' 1 [exampleRef ''dc1'' 1 ''d1''] CHANGE COMPLETE,
        exampleNetworkChange ''nc2'' 2 [exampleRef ''dc2'' 2 ''d2''] CHANGE COMPLETE,
        exampleNetworkChange ''nc3'' 3 [exampleRef ''dc3'' 3 ''d3''] CHANGE PENDING]
       [exampleDeviceChange ''dc1'' 1 ''nc1'' ''d1'' CHANGE COMPLETE,
        exampleDeviceChange ''dc2'' 2 ''nc2'' ''d2'' CHANGE COMPLETE,
        exampleDeviceChange ''dc3'' 3 ''nc3'' ''d3'' CHANGE PENDING]
       0 []"

definition reopenedQueue :: Reconciler where
  "reopenedQueue =
     exampleReconciler
       [exampleNetworkChange ''nc1'' 1 [exampleRef ''dc1'' 1 ''d1''] ROLLBACK PENDING,
        exampleNetworkChange ''nc2'' 2 [exampleRef ''dc2'' 2 ''d2''] CHANGE COMPLETE,
        exampleNetworkChange ''nc3'' 3 [exampleRef ''dc3'' 3 ''d3''] CHANGE RUNNING,
        exampleNetworkChange ''nc4'' 4 [exampleRef ''dc4'' 4 ''d1''] CHANGE PENDING]
       [exampleDeviceChange ''dc1'' 1 ''nc1'' ''d1'' CHANGE COMPLETE,
        exampleDeviceChange ''dc2'' 2 ''nc2'' ''d2'' CHANGE COMPLETE,
        exampleDeviceChange ''dc3'' 3 ''nc3'' ''d3'' CHANGE PENDING,
        exampleDeviceChange ''dc4'' 4 ''nc4'' ''d1'' CHANGE PENDING]
       2 []"

text \<open>
  One ref to materialise, under a given script of store failures.
\<close>

definition unmaterialised :: "bool list \<Rightarrow> Reconciler" where
  "unmaterialised fs =
     exampleReconciler
       [exampleNetworkChange ''nc1'' 1 [exampleRef [] 0 ''d1''] CHANGE PENDING]
       [] 0 fs"

text \<open>
  A network change in (ROLLBACK, RUNNING) whose only device change has completed its
  rollback, under a given script of store failures.
\<close>

definition rolledBack :: "bool list \<Rightarrow> Reconciler" where
  "rolledBack fs =
     exampleReconciler
       [exampleNetworkChange ''nc1'' 1 [exampleRef ''dc1'' 1 ''d1''] ROLLBACK RUNNING]
       [exampleDeviceChange ''dc1'' 1 ''nc1'' ''d1'' ROLLBACK COMPLETE]
       0 fs"

text \<open>
  A network change whose ref names a device change the store does not hold.
\<close>

definition missingChild :: "Phase \<Rightarrow> State \<Rightarrow> Reconciler" where
  "missingChild p s =
     exampleReconciler
       [exampleNetworkChange ''nc1'' 1 [exampleRef ''dc1'' 1 ''d1''] p s]
       [] 0 []"

text \<open>
  A pending network change with its device change, and nothing before it.
\<close>

definition singlePending :: Reconciler where
  "singlePending =
     exampleReconciler
       [exampleNetworkChange ''nc1'' 1 [exampleRef ''dc1'' 1 ''d1''] CHANGE PENDING]
       [exampleDeviceChange ''dc1'' 1 ''nc1'' ''d1'' CHANGE PENDING]
       0 []"


text \<open>
  The third change waits for the second, which is running on the same device; the first
  is complete.
\<close>

definition blockedBehindRunning :: Reconciler where
  "blockedBehindRunning =
     exampleReconciler
       [exampleNetworkChange ''nc1'' 1 [exampleRef ''dc1'' 1 ''d1''] CHANGE COMPLETE,
        exampleNetworkChange ''nc2'' 2 [exampleRef ''dc2'' 2 ''d1''] CHANGE RUNNING,
        exampleNetworkChange ''nc3'' 3 [exampleRef ''dc3'' 3 ''d1''] CHANGE PENDING]
       [exampleDeviceChange ''dc1'' 1 ''nc1'' ''d1'' CHANGE COMPLETE,
        exampleDeviceChange ''dc2'' 2 ''nc2'' ''d1'' CHANGE RUNNING,
        exampleDeviceChange ''dc3'' 3 ''nc3'' ''d1'' CHANGE PENDING]
       0 []"

section \<open>Lemmas\<close>

subsection \<open>Unfolding the examples\<close>

lemmas example_defs =
  exampleRef_def exampleDeviceChange_def exampleNetworkChange_def exampleReconciler_def

subsection \<open>Store calls and the admission loop of a change\<close>

lemma storeCall_frame:
  "storeCall r = (f, r') \<Longrightarrow>
     networkChanges r' = networkChanges r \<and> deviceChanges r' = deviceChanges r \<and>
     changeIndex r' = changeIndex r \<and> newChangeID r' = newChangeID r \<and>
     (faults r = [] \<longrightarrow> faults r' = [])"
  by (auto simp: storeCall_def split: list.splits)

lemma storeCall_nofault: "faults r = [] \<Longrightarrow> storeCall r = (False, r)"
  by (simp add: storeCall_def)

lemma GetByIndex_frame:
  "networkChanges_GetByIndex r i = (res, r') \<Longrightarrow>
     networkChanges r' = networkChanges r \<and> deviceChanges r' = deviceChanges r \<and>
     changeIndex r' = changeIndex r \<and> newChangeID r' = newChangeID r \<and>
     (faults r = [] \<longrightarrow> faults r' = [])"
  by (auto simp: networkChanges_GetByIndex_def split: prod.splits if_splits dest: storeCall_frame)

lemma GetByIndex_Inr:
  "networkChanges_GetByIndex r i = (Inr p, r') \<Longrightarrow>
     p = find (\<lambda>c. nc_Index c = i) (networkChanges r)"
  by (auto simp: networkChanges_GetByIndex_def split: prod.splits if_splits dest: storeCall_frame)

lemma GetByIndex_nofault:
  "faults r = [] \<Longrightarrow>
     networkChanges_GetByIndex r i = (Inr (find (\<lambda>c. nc_Index c = i) (networkChanges r)), r)"
  by (simp add: networkChanges_GetByIndex_def storeCall_nofault)

lemma blocksChange_cong:
  "networkChanges r' = networkChanges r \<Longrightarrow> blocksChange c r' i = blocksChange c r i"
  by (simp add: blocksChange_def)

lemma canApplyChange_loop_frame:
  "canApplyChange_loop c is seq r = (res, r') \<Longrightarrow>
     networkChanges r' = networkChanges r \<and> deviceChanges r' = deviceChanges r \<and>
     newChangeID r' = newChangeID r \<and> changeIndex r \<le> changeIndex r' \<and>
     (faults r = [] \<longrightarrow> faults r' = [])"
proof (induction "is" arbitrary: seq r)
  case Nil
  then show ?case by simp
next
  case (Cons i "is")
  obtain g r1 where g: "networkChanges_GetByIndex r i = (g, r1)" by (cases "networkChanges_GetByIndex r i")
  note fr = GetByIndex_frame[OF g]
  from Cons.prems g fr show ?case
    by (auto split: sum.splits option.splits if_splits dest!: Cons.IH)
qed

lemma canApplyChange_loop_result:
  "canApplyChange_loop c is seq r = (Inr b, r') \<Longrightarrow> b = (\<not> (\<exists>i\<in>set is. blocksChange c r i))"
proof (induction "is" arbitrary: seq r)
  case Nil
  then show ?case by simp
next
  case (Cons i "is")
  obtain g r1 where g: "networkChanges_GetByIndex r i = (g, r1)"
    by (cases "networkChanges_GetByIndex r i")
  have bc: "blocksChange c r2 j = blocksChange c r j"
    if "networkChanges r2 = networkChanges r1" for r2 j
    using that GetByIndex_frame[OF g] by (simp add: blocksChange_def)
  show ?case
  proof (cases g)
    case (Inl e)
    with Cons.prems g show ?thesis by simp
  next
    case (Inr p)
    with g have fnd: "find (\<lambda>c. nc_Index c = i) (networkChanges r) = p"
      by (auto dest: GetByIndex_Inr)
    show ?thesis
    proof (cases p)
      case None
      with Cons.prems g Inr have "canApplyChange_loop c is seq r1 = (Inr b, r')" by simp
      from Cons.IH[OF this] have "b = (\<not> (\<exists>i\<in>set is. blocksChange c r i))" by (simp add: bc)
      moreover have "\<not> blocksChange c r i" using fnd None by (simp add: blocksChange_def)
      ultimately show ?thesis by simp
    next
      case (Some q)
      show ?thesis
      proof (cases "State (nc_Status q) = PENDING \<or> State (nc_Status q) = RUNNING")
        case inflight: True
        show ?thesis
        proof (cases "isIntersectingChange c q")
          case True
          with Cons.prems g Inr Some inflight have "b = False" by auto
          moreover have "blocksChange c r i" using fnd Some inflight True by (simp add: blocksChange_def)
          ultimately show ?thesis by simp
        next
          case False
          with Cons.prems g Inr Some inflight
          have "canApplyChange_loop c is False r1 = (Inr b, r')" by auto
          from Cons.IH[OF this] have "b = (\<not> (\<exists>i\<in>set is. blocksChange c r i))" by (simp add: bc)
          moreover have "\<not> blocksChange c r i" using fnd Some False by (simp add: blocksChange_def)
          ultimately show ?thesis by simp
        qed
      next
        case terminal: False
        have nb: "\<not> blocksChange c r i" using fnd Some terminal by (simp add: blocksChange_def)
        show ?thesis
        proof (cases seq)
          case True
          with Cons.prems g Inr Some terminal
          have "canApplyChange_loop c is seq (r1\<lparr>changeIndex := changeIndex r1 + 1\<rparr>) = (Inr b, r')"
            by auto
          from Cons.IH[OF this] have "b = (\<not> (\<exists>i\<in>set is. blocksChange c r i))" by (simp add: bc)
          with nb show ?thesis by simp
        next
          case False
          with Cons.prems g Inr Some terminal
          have "canApplyChange_loop c is seq r1 = (Inr b, r')" by auto
          from Cons.IH[OF this] have "b = (\<not> (\<exists>i\<in>set is. blocksChange c r i))" by (simp add: bc)
          with nb show ?thesis by simp
        qed
      qed
    qed
  qed
qed

lemma canApplyChange_loop_nofault:
  "faults r = [] \<Longrightarrow> \<exists>b k. canApplyChange_loop c is seq r = (Inr b, r\<lparr>changeIndex := k\<rparr>)"
proof (induction "is" arbitrary: seq r)
  case Nil
  have "canApplyChange_loop c [] seq r = (Inr True, r\<lparr>changeIndex := changeIndex r\<rparr>)" by simp
  then show ?case by blast
next
  case (Cons i "is")
  note g = GetByIndex_nofault[OF Cons.prems, of i]
  have ih: "\<exists>b k. canApplyChange_loop c is s r = (Inr b, r\<lparr>changeIndex := k\<rparr>)" for s
    using Cons.IH[OF Cons.prems] .
  have ih': "\<exists>b k. canApplyChange_loop c is s (r\<lparr>changeIndex := n\<rparr>) = (Inr b, r\<lparr>changeIndex := k\<rparr>)"
    for s n using Cons.IH[of "r\<lparr>changeIndex := n\<rparr>" s] Cons.prems by simp
  have stop: "\<exists>k. r = r\<lparr>changeIndex := k\<rparr>"
    by (rule exI[of _ "changeIndex r"]) simp
  show ?case
    by (auto simp add: g ih ih' stop split: option.split)
qed

subsection \<open>Calls that leave the network-change store alone\<close>

lemma net_same_refl: "net_same r r"
  by (simp add: net_same_def)

lemma net_same_trans: "net_same r r1 \<Longrightarrow> net_same r1 r2 \<Longrightarrow> net_same r r2"
  by (simp add: net_same_def)

lemma storeCall_net_same: "storeCall r = (f, r') \<Longrightarrow> net_same r r'"
  by (auto simp: storeCall_def net_same_def split: list.splits)

lemma deviceChanges_Get_net_same: "deviceChanges_Get r i = (res, r') \<Longrightarrow> net_same r r'"
  by (auto simp: deviceChanges_Get_def split: prod.splits if_splits dest: storeCall_net_same)

lemma deviceChanges_Create_net_same: "deviceChanges_Create r d = (res, r') \<Longrightarrow> net_same r r'"
  by (auto simp: deviceChanges_Create_def Let_def net_same_def split: prod.splits if_splits
           dest!: storeCall_net_same)

lemma deviceChanges_Update_net_same: "deviceChanges_Update r d = (res, r') \<Longrightarrow> net_same r r'"
  by (auto simp: deviceChanges_Update_def net_same_def split: prod.splits if_splits
           dest!: storeCall_net_same)

lemma ensureDeviceChanges_loop_net_same:
  "ensureDeviceChanges_loop n refs u r = (res, refs', r') \<Longrightarrow> net_same r r'"
proof (induction refs arbitrary: u r res refs' r')
  case Nil
  then show ?case by (simp add: net_same_refl)
next
  case (Cons change rest)
  then show ?case
    by (auto split: if_splits prod.splits sum.splits
             dest!: deviceChanges_Create_net_same intro: net_same_trans net_same_refl)
qed

lemma getDeviceChanges_loop_net_same:
  "getDeviceChanges_loop refs r = (res, r') \<Longrightarrow> net_same r r'"
proof (induction refs arbitrary: r res r')
  case Nil
  then show ?case by (simp add: net_same_refl)
next
  case (Cons change rest)
  then show ?case
    by (auto split: if_splits prod.splits sum.splits
             dest!: deviceChanges_Get_net_same intro: net_same_trans net_same_refl)
qed

lemma ensureDeviceChangesRunning_loop_net_same:
  "ensureDeviceChangesRunning_loop ds u r = (res, ds', r') \<Longrightarrow> net_same r r'"
proof (induction ds u r arbitrary: res ds' r' rule: ensureDeviceChangesRunning_loop.induct)
  case (1 updated r)
  then show ?case by (simp add: net_same_refl)
next
  case (2 rest updated r)
  then show ?case by (simp add: net_same_refl)
next
  case (3 deviceChange rest updated r)
  then show ?case
    by (auto simp: Let_def split: if_splits prod.splits sum.splits
             dest!: deviceChanges_Update_net_same intro: net_same_trans net_same_refl)
qed

lemma ensureDeviceChangeRollbacksRunning_loop_net_same:
  "ensureDeviceChangeRollbacksRunning_loop ds u r = (res, ds', r') \<Longrightarrow> net_same r r'"
proof (induction ds u r arbitrary: res ds' r' rule: ensureDeviceChangeRollbacksRunning_loop.induct)
  case (1 updated r)
  then show ?case by (simp add: net_same_refl)
next
  case (2 rest updated r)
  then show ?case by (simp add: net_same_refl)
next
  case (3 deviceChange rest updated r)
  then show ?case
    by (auto simp: Let_def split: if_splits prod.splits sum.splits
             dest!: deviceChanges_Update_net_same intro: net_same_trans net_same_refl)
qed

lemma ensureDeviceRollbacks_loop_net_same:
  "ensureDeviceRollbacks_loop refs u r = (res, r') \<Longrightarrow> net_same r r'"
proof (induction refs arbitrary: u r res r')
  case Nil
  then show ?case by (simp add: net_same_refl)
next
  case (Cons change rest)
  then show ?case
    by (auto split: if_splits prod.splits sum.splits option.splits
             dest!: deviceChanges_Get_net_same deviceChanges_Update_net_same
             intro: net_same_trans net_same_refl)
qed

lemma ensureDeviceRollbacksRunning_loop_net_same:
  "ensureDeviceRollbacksRunning_loop refs u r = (res, r') \<Longrightarrow> net_same r r'"
proof (induction refs arbitrary: u r res r')
  case Nil
  then show ?case by (simp add: net_same_refl)
next
  case (Cons change rest)
  then show ?case
    by (auto split: if_splits prod.splits sum.splits option.splits
             dest!: deviceChanges_Get_net_same deviceChanges_Update_net_same
             intro: net_same_trans net_same_refl)
qed

lemma isRollbackComplete_loop_net_same:
  "isRollbackComplete_loop refs n r = (res, r') \<Longrightarrow> net_same r r'"
proof (induction refs arbitrary: n r res r')
  case Nil
  then show ?case by (simp add: net_same_refl)
next
  case (Cons change rest)
  then show ?case
    by (auto split: if_splits prod.splits sum.splits option.splits
             dest!: deviceChanges_Get_net_same
             intro: net_same_trans net_same_refl)
qed

subsection \<open>The invariant of changeIndex\<close>






lemma net_sameD:
  "net_same r r' \<Longrightarrow> networkChanges r' = networkChanges r"
  "net_same r r' \<Longrightarrow> changeIndex r' = changeIndex r"
  "net_same r r' \<Longrightarrow> newChangeID r' = newChangeID r"
  "net_same r r' \<Longrightarrow> faults r = [] \<Longrightarrow> faults r' = []"
  by (simp_all add: net_same_def)

lemma networkChanges_Get_net_same: "networkChanges_Get r i = (res, r') \<Longrightarrow> net_same r r'"
  by (auto simp: networkChanges_Get_def split: prod.splits if_splits dest: storeCall_net_same)


lemma networkChanges_LastIndex_net_same:
  "networkChanges_LastIndex r = (res, r') \<Longrightarrow> net_same r r'"
  by (auto simp: networkChanges_LastIndex_def split: prod.splits if_splits dest: storeCall_net_same)

lemma GetByIndex_net_same: "networkChanges_GetByIndex r i = (res, r') \<Longrightarrow> net_same r r'"
  by (auto simp: net_same_def dest: GetByIndex_frame)

lemma canApplyRollback_loop_net_same:
  "canApplyRollback_loop c is r = (res, r') \<Longrightarrow> net_same r r'"
proof (induction "is" arbitrary: r)
  case Nil
  then show ?case by (simp add: net_same_refl)
next
  case (Cons i "is")
  then show ?case
    by (auto split: if_splits prod.splits sum.splits option.splits
             dest!: GetByIndex_net_same intro: net_same_trans net_same_refl)
qed

lemma canApplyRollback_net_same: "canApplyRollback r c = (res, r') \<Longrightarrow> net_same r r'"
  by (auto simp: canApplyRollback_def split: prod.splits sum.splits
           dest!: networkChanges_LastIndex_net_same canApplyRollback_loop_net_same
           intro: net_same_trans)

lemma networkChanges_Update_effect:
  "networkChanges_Update r c' = (res, r') \<Longrightarrow>
     deviceChanges r' = deviceChanges r \<and> changeIndex r' = changeIndex r \<and>
     newChangeID r' = newChangeID r \<and> (faults r = [] \<longrightarrow> faults r' = []) \<and>
     (case res of
        Inl e \<Rightarrow> networkChanges r' = networkChanges r
      | Inr u \<Rightarrow> networkChanges r' =
                  map (\<lambda>x. if nc_ID x = nc_ID c' then c' else x) (networkChanges r))"
  by (auto simp: networkChanges_Update_def split: prod.splits if_splits dest!: storeCall_frame)



lemma ensureDeviceChanges_loop_False:
  "ensureDeviceChanges_loop n refs u r = (Inr False, refs', r') \<Longrightarrow>
     \<not> u \<and> refs' = refs \<and> r' = r \<and> (\<forall>ref\<in>set refs. ref_ID ref \<noteq> [])"
proof (induction refs arbitrary: u r refs' r')
  case Nil
  then show ?case by simp
next
  case (Cons change rest)
  then show ?case
    by (auto split: if_splits prod.splits sum.splits)
qed

lemma ensureDeviceChanges_False:
  "ensureDeviceChanges r config = (Inr False, config', r') \<Longrightarrow>
     config' = config \<and> r' = r \<and> (\<forall>ref\<in>set (nc_Changes config). ref_ID ref \<noteq> [])"
  by (auto simp: ensureDeviceChanges_def Let_def split: prod.splits sum.splits if_splits
           dest!: ensureDeviceChanges_loop_False)

lemma ensureDeviceChanges_config:
  "ensureDeviceChanges r config = (res, config', r') \<Longrightarrow>
     nc_ID config' = nc_ID config \<and> nc_Index config' = nc_Index config \<and>
     nc_Status config' = nc_Status config"
  by (auto simp: ensureDeviceChanges_def Let_def split: prod.splits sum.splits if_splits)


lemma canApplyChange_net:
  "canApplyChange r c = (res, r') \<Longrightarrow>
     networkChanges r' = networkChanges r \<and> changeIndex r \<le> changeIndex r'"
  by (auto simp: canApplyChange_def dest: canApplyChange_loop_frame)



lemma getDeviceChanges_net_same: "getDeviceChanges r c = (res, r') \<Longrightarrow> net_same r r'"
  by (auto simp: getDeviceChanges_def dest: getDeviceChanges_loop_net_same)

lemma ensureDeviceChangesRunning_net_same:
  "ensureDeviceChangesRunning r ds = (res, ds', r') \<Longrightarrow> net_same r r'"
  by (auto simp: ensureDeviceChangesRunning_def dest: ensureDeviceChangesRunning_loop_net_same)

lemma ensureDeviceChangeRollbacksRunning_net_same:
  "ensureDeviceChangeRollbacksRunning r ds = (res, ds', r') \<Longrightarrow> net_same r r'"
  by (auto simp: ensureDeviceChangeRollbacksRunning_def
           dest: ensureDeviceChangeRollbacksRunning_loop_net_same)

lemma ensureDeviceRollbacks_net_same: "ensureDeviceRollbacks r c = (res, r') \<Longrightarrow> net_same r r'"
  by (auto simp: ensureDeviceRollbacks_def dest: ensureDeviceRollbacks_loop_net_same)

lemma ensureDeviceRollbacksRunning_net_same:
  "ensureDeviceRollbacksRunning r c = (res, r') \<Longrightarrow> net_same r r'"
  by (auto simp: ensureDeviceRollbacksRunning_def dest: ensureDeviceRollbacksRunning_loop_net_same)

lemma isRollbackComplete_net_same: "isRollbackComplete r c = (res, r') \<Longrightarrow> net_same r r'"
  by (auto simp: isRollbackComplete_def split: prod.splits sum.splits
           dest: isRollbackComplete_loop_net_same)










subsection \<open>What the admission tests return\<close>

lemma isIntersectingChange_iff:
  "isIntersectingChange c p \<longleftrightarrow>
     ref_DeviceID ` set (nc_Changes c) \<inter> ref_DeviceID ` set (nc_Changes p) \<noteq> {}"
  by (auto simp: isIntersectingChange_def list_ex_iff)

lemma blocksChange_iff:
  "blocksChange c r i \<longleftrightarrow>
     (\<exists>p. find (\<lambda>x. nc_Index x = i) (networkChanges r) = Some p \<and>
          (State (nc_Status p) = PENDING \<or> State (nc_Status p) = RUNNING) \<and>
          ref_DeviceID ` set (nc_Changes c) \<inter> ref_DeviceID ` set (nc_Changes p) \<noteq> {})"
  by (simp add: blocksChange_def isIntersectingChange_iff split: option.splits)

lemma canApplyChange_nofault:
  "faults r = [] \<Longrightarrow> \<exists>b k. canApplyChange r c = (Inr b, r\<lparr>changeIndex := k\<rparr>)"
  by (simp add: canApplyChange_def canApplyChange_loop_nofault)

lemma canApplyChange_result:
  assumes "canApplyChange r c = (Inr b, r')"
  shows "b = (\<not> (\<exists>i. changeIndex r \<le> i \<and> i < nc_Index c \<and> blocksChange c r i))"
  using canApplyChange_loop_result[OF assms[unfolded canApplyChange_def]] by auto







subsection \<open>A pending change that is blocked\<close>

lemma find_replace_same:
  "nc_ID c' = k \<Longrightarrow> find (\<lambda>x. nc_ID x = k) xs = Some c \<Longrightarrow>
     find (\<lambda>x. nc_ID x = k) (map (\<lambda>x. if nc_ID x = k then c' else x) xs) = Some c'"
  by (induction xs) (auto split: if_splits)

lemma ensureDeviceChanges_net:
  "ensureDeviceChanges r config = (res, config', r') \<Longrightarrow>
     changeIndex r' = changeIndex r \<and>
     (networkChanges r' = networkChanges r \<or>
      networkChanges r' =
        map (\<lambda>x. if nc_ID x = nc_ID config then config' else x) (networkChanges r))"
  by (auto simp: ensureDeviceChanges_def Let_def split: prod.splits sum.splits if_splits
           dest!: ensureDeviceChanges_loop_net_same networkChanges_Update_effect
           dest: net_sameD)

lemma reconcilePendingChange_blocked:
  assumes "changeIndex r \<le> i" "i < nc_Index c" "blocksChange c r i"
    and "reconcilePendingChange r c = (res, r')"
  shows "res \<noteq> Inr True \<and> networkChanges r' = networkChanges r"
proof -
  obtain cres r1 where ca: "canApplyChange r c = (cres, r1)" by (cases "canApplyChange r c")
  have "cres \<noteq> Inr True"
  proof
    assume "cres = Inr True"
    with canApplyChange_result[of r c True r1] ca assms(1,2,3) show False by auto
  qed
  with assms(4) ca canApplyChange_net[OF ca] show ?thesis
    by (auto simp: reconcilePendingChange_def split: sum.splits if_splits)
qed

subsection \<open>Errors and the network-change store\<close>

lemma networkChanges_Update_Inl:
  "networkChanges_Update r c = (Inl e, r') \<Longrightarrow> networkChanges r' = networkChanges r"
  by (auto dest: networkChanges_Update_effect)

lemma ensureDeviceChanges_Inl:
  "ensureDeviceChanges r config = (Inl e, config', r') \<Longrightarrow> networkChanges r' = networkChanges r"
  by (auto simp: ensureDeviceChanges_def Let_def split: prod.splits sum.splits if_splits
           dest!: ensureDeviceChanges_loop_net_same networkChanges_Update_Inl simp: net_same_def)

lemma reconcilePendingChange_Inl:
  "reconcilePendingChange r c = (Inl e, r') \<Longrightarrow> networkChanges r' = networkChanges r"
  by (auto simp: reconcilePendingChange_def split: prod.splits sum.splits if_splits
           dest!: canApplyChange_net networkChanges_Update_Inl)

lemma reconcileRunningChange_Inl:
  "reconcileRunningChange r c = (Inl e, r') \<Longrightarrow> networkChanges r' = networkChanges r"
  by (auto simp: reconcileRunningChange_def
           split: prod.splits sum.splits if_splits bool.splits
           dest!: getDeviceChanges_net_same ensureDeviceChangesRunning_net_same
                  ensureDeviceChangeRollbacksRunning_net_same networkChanges_Update_Inl
           simp: net_same_def)

lemma reconcileChange_Inl:
  "reconcileChange r c = (Inl e, r') \<Longrightarrow> networkChanges r' = networkChanges r"
  by (auto simp: reconcileChange_def split: State.splits
           dest: reconcilePendingChange_Inl reconcileRunningChange_Inl)

lemma reconcilePendingRollback_Inl:
  "reconcilePendingRollback r c = (Inl e, r') \<Longrightarrow> networkChanges r' = networkChanges r"
  by (auto simp: reconcilePendingRollback_def split: prod.splits sum.splits if_splits
           dest!: canApplyRollback_net_same networkChanges_Update_Inl simp: net_same_def)

lemma reconcileRunningRollback_Inl:
  "reconcileRunningRollback r c = (Inl e, r') \<Longrightarrow> networkChanges r' = networkChanges r"
  by (auto simp: reconcileRunningRollback_def split: prod.splits sum.splits if_splits
           dest!: ensureDeviceRollbacksRunning_net_same isRollbackComplete_net_same
           simp: net_same_def)

lemma reconcileRollback_Inl:
  "reconcileRollback r c = (Inl e, r') \<Longrightarrow> networkChanges r' = networkChanges r"
  by (auto simp: reconcileRollback_def split: prod.splits sum.splits if_splits State.splits
           dest!: ensureDeviceRollbacks_net_same reconcilePendingRollback_Inl
                  reconcileRunningRollback_Inl
           simp: net_same_def)

subsection \<open>Runs under a script of failures\<close>

lemma storeCall_ok: "faults r = False # fs \<Longrightarrow> storeCall r = (False, r\<lparr>faults := fs\<rparr>)"
  by (simp add: storeCall_def)

lemma storeCall_fail: "faults r = True # fs \<Longrightarrow> storeCall r = (True, r\<lparr>faults := fs\<rparr>)"
  by (simp add: storeCall_def)

lemma deviceChanges_Get_ok:
  "faults r = False # fs \<Longrightarrow>
     deviceChanges_Get r i = (Inr (find (\<lambda>d. dc_ID d = i) (deviceChanges r)), r\<lparr>faults := fs\<rparr>)"
  by (simp add: deviceChanges_Get_def storeCall_ok)

lemma networkChanges_Get_ok:
  "faults r = False # fs \<Longrightarrow>
     networkChanges_Get r i = (Inr (find (\<lambda>c. nc_ID c = i) (networkChanges r)), r\<lparr>faults := fs\<rparr>)"
  by (simp add: networkChanges_Get_def storeCall_ok)

lemma networkChanges_Update_fail:
  "faults r = True # fs \<Longrightarrow> networkChanges_Update r c = (Inl StoreError, r\<lparr>faults := fs\<rparr>)"
  by (simp add: networkChanges_Update_def storeCall_fail)

lemma ensureDeviceChanges_materialised:
  "\<forall>ref\<in>set refs. ref_ID ref \<noteq> [] \<Longrightarrow>
     ensureDeviceChanges_loop n refs u r = (Inr u, refs, r)"
  by (induction refs) auto

lemma ensureDeviceRollbacks_loop_idle:
  assumes "\<forall>ref\<in>set refs. \<exists>d. find (\<lambda>d. dc_ID d = ref_ID ref) (deviceChanges r) = Some d \<and>
              Phase (dc_Status d) = ROLLBACK"
    and "faults r = replicate (length refs) False @ fs"
  shows "ensureDeviceRollbacks_loop refs u r = (Inr u, r\<lparr>faults := fs\<rparr>)"
  using assms
proof (induction refs arbitrary: r)
  case Nil
  then show ?case by simp
next
  case (Cons ref refs)
  let ?r1 = "r\<lparr>faults := replicate (length refs) False @ fs\<rparr>"
  from Cons.prems(2) have g: "deviceChanges_Get r (ref_ID ref)
      = (Inr (find (\<lambda>d. dc_ID d = ref_ID ref) (deviceChanges r)), ?r1)"
    by (intro deviceChanges_Get_ok) simp
  from Cons.prems(1) obtain d where d: "find (\<lambda>d. dc_ID d = ref_ID ref) (deviceChanges r) = Some d"
    "Phase (dc_Status d) = ROLLBACK" by auto
  have "ensureDeviceRollbacks_loop refs u ?r1 = (Inr u, ?r1\<lparr>faults := fs\<rparr>)"
    using Cons.prems(1) by (intro Cons.IH) simp_all
  with g d show ?case by simp
qed

lemma ensureDeviceRollbacksRunning_loop_idle:
  assumes "\<forall>ref\<in>set refs. \<exists>d. find (\<lambda>d. dc_ID d = ref_ID ref) (deviceChanges r) = Some d \<and>
              State (dc_Status d) \<noteq> PENDING"
    and "faults r = replicate (length refs) False @ fs"
  shows "ensureDeviceRollbacksRunning_loop refs u r = (Inr u, r\<lparr>faults := fs\<rparr>)"
  using assms
proof (induction refs arbitrary: r)
  case Nil
  then show ?case by simp
next
  case (Cons ref refs)
  let ?r1 = "r\<lparr>faults := replicate (length refs) False @ fs\<rparr>"
  from Cons.prems(2) have g: "deviceChanges_Get r (ref_ID ref)
      = (Inr (find (\<lambda>d. dc_ID d = ref_ID ref) (deviceChanges r)), ?r1)"
    by (intro deviceChanges_Get_ok) simp
  from Cons.prems(1) obtain d where d: "find (\<lambda>d. dc_ID d = ref_ID ref) (deviceChanges r) = Some d"
    "State (dc_Status d) \<noteq> PENDING" by auto
  have "ensureDeviceRollbacksRunning_loop refs u ?r1 = (Inr u, ?r1\<lparr>faults := fs\<rparr>)"
    using Cons.prems(1) by (intro Cons.IH) simp_all
  with g d show ?case by simp
qed

lemma isRollbackComplete_loop_all:
  assumes "\<forall>ref\<in>set refs. \<exists>d. find (\<lambda>d. dc_ID d = ref_ID ref) (deviceChanges r) = Some d \<and>
              State (dc_Status d) = COMPLETE"
    and "faults r = replicate (length refs) False @ fs"
  shows "isRollbackComplete_loop refs n r = (Inr (n + length refs), r\<lparr>faults := fs\<rparr>)"
  using assms
proof (induction refs arbitrary: r n)
  case Nil
  then show ?case by simp
next
  case (Cons ref refs)
  let ?r1 = "r\<lparr>faults := replicate (length refs) False @ fs\<rparr>"
  from Cons.prems(2) have g: "deviceChanges_Get r (ref_ID ref)
      = (Inr (find (\<lambda>d. dc_ID d = ref_ID ref) (deviceChanges r)), ?r1)"
    by (intro deviceChanges_Get_ok) simp
  from Cons.prems(1) obtain d where d: "find (\<lambda>d. dc_ID d = ref_ID ref) (deviceChanges r) = Some d"
    "State (dc_Status d) = COMPLETE" by auto
  have "isRollbackComplete_loop refs (n + 1) ?r1 = (Inr (n + 1 + length refs), ?r1\<lparr>faults := fs\<rparr>)"
    using Cons.prems(1) by (intro Cons.IH) simp_all
  with g d show ?case by simp
qed

subsection \<open>Materialising the refs when no store call fails\<close>

lemma materialises_mono:
  "materialises n created ref ref' \<Longrightarrow> materialises n (d # created) ref ref'"
  by (auto simp: materialises_def split: if_splits)

lemma deviceChanges_Create_nofault:
  "faults r = [] \<Longrightarrow>
     deviceChanges_Create r d =
       (Inr (d\<lparr>dc_ID := newChangeID r (Suc (foldr (\<lambda>x m. max (dc_Index x) m) (deviceChanges r) 0)),
               dc_Index := Suc (foldr (\<lambda>x m. max (dc_Index x) m) (deviceChanges r) 0)\<rparr>),
        r\<lparr>deviceChanges := deviceChanges r @
             [d\<lparr>dc_ID := newChangeID r (Suc (foldr (\<lambda>x m. max (dc_Index x) m) (deviceChanges r) 0)),
                dc_Index := Suc (foldr (\<lambda>x m. max (dc_Index x) m) (deviceChanges r) 0)\<rparr>]\<rparr>)"
  by (simp add: deviceChanges_Create_def storeCall_nofault Let_def)

lemma networkChanges_Update_nofault:
  "faults r = [] \<Longrightarrow> find (\<lambda>x. nc_ID x = nc_ID c) (networkChanges r) \<noteq> None \<Longrightarrow>
     networkChanges_Update r c =
       (Inr (), r\<lparr>networkChanges :=
                    map (\<lambda>x. if nc_ID x = nc_ID c then c else x) (networkChanges r)\<rparr>)"
  by (simp add: networkChanges_Update_def storeCall_nofault)

lemma networkChanges_Get_nofault:
  "faults r = [] \<Longrightarrow>
     networkChanges_Get r i = (Inr (find (\<lambda>c. nc_ID c = i) (networkChanges r)), r)"
  by (simp add: networkChanges_Get_def storeCall_nofault)

lemma ensureDeviceChanges_loop_nofault:
  assumes "faults r = []"
  shows "\<exists>refs' created.
           ensureDeviceChanges_loop n refs u r =
             (Inr (u \<or> (\<exists>ref\<in>set refs. ref_ID ref = [])), refs',
              r\<lparr>deviceChanges := deviceChanges r @ created\<rparr>) \<and>
           length created = length (filter (\<lambda>ref. ref_ID ref = []) refs) \<and>
           list_all2 (materialises n created) refs refs'"
  using assms
proof (induction refs arbitrary: u r)
  case Nil
  have "r = r\<lparr>deviceChanges := deviceChanges r @ []\<rparr>" by simp
  then have "ensureDeviceChanges_loop n [] u r =
               (Inr (u \<or> (\<exists>ref\<in>set []. ref_ID ref = [])), [],
                r\<lparr>deviceChanges := deviceChanges r @ []\<rparr>) \<and>
             length ([] :: DeviceChange list) = length (filter (\<lambda>ref. ref_ID ref = []) []) \<and>
             list_all2 (materialises n []) [] []"
    by simp
  then show ?case by blast
next
  case (Cons ref rest)
  show ?case
  proof (cases "ref_ID ref = []")
    case True
    let ?i = "Suc (foldr (\<lambda>x m. max (dc_Index x) m) (deviceChanges r) 0)"
    let ?d = "\<lparr>dc_ID = newChangeID r ?i, dc_Index = ?i, dc_NetworkChangeID = n,
                dc_DeviceID = ref_DeviceID ref, dc_DeviceVersion = ref_DeviceVersion ref,
                dc_Values = ref_Values ref,
                dc_Status = \<lparr>Phase = CHANGE, State = PENDING, Reason = NONE\<rparr>\<rparr>"
    let ?r1 = "r\<lparr>deviceChanges := deviceChanges r @ [?d]\<rparr>"
    have cr: "deviceChanges_Create r
                \<lparr>dc_ID = [], dc_Index = 0, dc_NetworkChangeID = n,
                 dc_DeviceID = ref_DeviceID ref, dc_DeviceVersion = ref_DeviceVersion ref,
                 dc_Values = ref_Values ref,
                 dc_Status = \<lparr>Phase = CHANGE, State = PENDING, Reason = NONE\<rparr>\<rparr> = (Inr ?d, ?r1)"
      by (simp add: deviceChanges_Create_nofault[OF Cons.prems])
    have "faults ?r1 = []" using Cons.prems by simp
    from Cons.IH[OF this, of True] obtain refs' created where
      run: "ensureDeviceChanges_loop n rest True ?r1 =
              (Inr True, refs', ?r1\<lparr>deviceChanges := deviceChanges ?r1 @ created\<rparr>)"
      and len: "length created = length (filter (\<lambda>ref. ref_ID ref = []) rest)"
      and rel: "list_all2 (materialises n created) rest refs'"
      by auto
    let ?ref' = "ref\<lparr>ref_ID := dc_ID ?d, ref_Index := dc_Index ?d\<rparr>"
    have 1: "ensureDeviceChanges_loop n (ref # rest) u r =
               (Inr (u \<or> (\<exists>x\<in>set (ref # rest). ref_ID x = [])), ?ref' # refs',
                r\<lparr>deviceChanges := deviceChanges r @ (?d # created)\<rparr>)"
      using True cr run by simp
    have 2: "length (?d # created) = length (filter (\<lambda>ref. ref_ID ref = []) (ref # rest))"
      using True len by simp
    have "materialises n (?d # created) ref ?ref'"
      using True by (simp add: materialises_def)
    moreover have "list_all2 (materialises n (?d # created)) rest refs'"
      using rel by (rule list_all2_mono) (rule materialises_mono)
    ultimately have 3: "list_all2 (materialises n (?d # created)) (ref # rest) (?ref' # refs')"
      by simp
    from 1 2 3 show ?thesis by blast
  next
    case False
    from Cons.IH[OF Cons.prems, of u] obtain refs' created where
      run: "ensureDeviceChanges_loop n rest u r =
              (Inr (u \<or> (\<exists>ref\<in>set rest. ref_ID ref = [])), refs',
               r\<lparr>deviceChanges := deviceChanges r @ created\<rparr>)"
      and len: "length created = length (filter (\<lambda>ref. ref_ID ref = []) rest)"
      and rel: "list_all2 (materialises n created) rest refs'"
      by auto
    have 1: "ensureDeviceChanges_loop n (ref # rest) u r =
               (Inr (u \<or> (\<exists>x\<in>set (ref # rest). ref_ID x = [])), ref # refs',
                r\<lparr>deviceChanges := deviceChanges r @ created\<rparr>)"
      using False run by simp
    have 2: "length created = length (filter (\<lambda>ref. ref_ID ref = []) (ref # rest))"
      using False len by simp
    have 3: "list_all2 (materialises n created) (ref # rest) (ref # refs')"
      using False rel by (simp add: materialises_def)
    from 1 2 3 show ?thesis by blast
  qed
qed

lemma ensureDeviceChanges_keeps_status:
  assumes "find (\<lambda>x. nc_ID x = nc_ID c) (networkChanges r) = Some c"
    and "ensureDeviceChanges r c = (x, c', r')"
  shows "map_option nc_Status (find (\<lambda>x. nc_ID x = nc_ID c) (networkChanges r'))
           = Some (nc_Status c)"
proof -
  from ensureDeviceChanges_net[OF assms(2)]
  consider "networkChanges r' = networkChanges r"
    | "networkChanges r' = map (\<lambda>x. if nc_ID x = nc_ID c then c' else x) (networkChanges r)"
    by blast
  then show ?thesis
  proof cases
    case 1
    with assms(1) show ?thesis by simp
  next
    case 2
    from find_replace_same[OF _ assms(1), of c'] ensureDeviceChanges_config[OF assms(2)] 2
    show ?thesis by simp
  qed
qed

subsection \<open>Rollback on failure when no store call fails\<close>









lemma rollbackOnFailure_ID: "dc_ID (rollbackOnFailure d) = dc_ID d"
  by (simp add: rollbackOnFailure_def)


subsection \<open>A second call after a call that wrote nothing\<close>

lemma blocksChange_inflight: "blocksChange c r i \<Longrightarrow> inflightAt r i"
  by (auto simp: blocksChange_def inflightAt_def split: option.splits)

lemma canApplyChange_loop_advance:
  assumes "k0 \<le> changeIndex r" "changeIndex r \<le> k"
    and "seq \<longrightarrow> (\<forall>i. k0 \<le> i \<and> i < k \<longrightarrow> \<not> inflightAt r i)"
    and "\<forall>i. k0 \<le> i \<and> i < changeIndex r \<longrightarrow> \<not> inflightAt r i"
    and "canApplyChange_loop c [k..<n] seq r = (res, r')"
  shows "\<forall>i. k0 \<le> i \<and> i < changeIndex r' \<longrightarrow> \<not> inflightAt r i"
  using assms
proof (induction "n - k" arbitrary: k seq r)
  case 0
  then show ?case by simp
next
  case (Suc m)
  then have kn: "k < n" and m: "m = n - Suc k" by simp_all
  have upt: "[k..<n] = k # [Suc k..<n]" using kn by (simp add: upt_conv_Cons)
  obtain g r1 where g: "networkChanges_GetByIndex r k = (g, r1)"
    by (cases "networkChanges_GetByIndex r k")
  note fr = GetByIndex_frame[OF g]
  have ia: "inflightAt r1 i = inflightAt r i"
    "inflightAt (r1\<lparr>changeIndex := j\<rparr>) i = inflightAt r i" for i j
    using fr by (simp_all add: inflightAt_def)
  have lo1: "k0 \<le> changeIndex r1" and le1: "changeIndex r1 \<le> Suc k"
    using Suc.prems(1,2) fr by simp_all
  have below1: "\<forall>i. k0 \<le> i \<and> i < changeIndex r1 \<longrightarrow> \<not> inflightAt r1 i"
    using Suc.prems(4) fr by (simp add: ia)
  show ?case
  proof (cases g)
    case (Inl e)
    with Suc.prems(5) g upt Suc.prems(4) fr show ?thesis by auto
  next
    case (Inr p)
    with g have fnd: "find (\<lambda>c. nc_Index c = k) (networkChanges r) = p"
      by (auto dest: GetByIndex_Inr)
    show ?thesis
    proof (cases "inflightAt r k")
      case True
      then obtain q where q: "p = Some q"
        "State (nc_Status q) = PENDING \<or> State (nc_Status q) = RUNNING"
        using fnd by (auto simp: inflightAt_def split: option.splits)
      show ?thesis
      proof (cases "isIntersectingChange c q")
        case True
        with Suc.prems(5) g Inr q upt Suc.prems(4) fr show ?thesis by auto
      next
        case False
        with Suc.prems(5) g Inr q upt
        have run: "canApplyChange_loop c [Suc k..<n] False r1 = (res, r')" by auto
        from Suc.hyps(1)[OF m lo1 le1 _ below1 run] show ?thesis by (simp add: ia)
      qed
    next
      case False
      have seq1: "seq \<longrightarrow> (\<forall>i. k0 \<le> i \<and> i < Suc k \<longrightarrow> \<not> inflightAt r1 i)"
        using Suc.prems(3) False by (auto simp: ia less_Suc_eq)
      show ?thesis
      proof (cases "p \<noteq> None \<and> seq")
        case True
        let ?r2 = "r1\<lparr>changeIndex := changeIndex r1 + 1\<rparr>"
        from True False fnd Suc.prems(5) g Inr upt
        have run: "canApplyChange_loop c [Suc k..<n] seq ?r2 = (res, r')"
          by (auto simp: inflightAt_def split: option.splits)
        have lo2: "k0 \<le> changeIndex ?r2" using lo1 by simp
        have le2: "changeIndex ?r2 \<le> Suc k" using Suc.prems(2) fr by simp
        have seq2: "seq \<longrightarrow> (\<forall>i. k0 \<le> i \<and> i < Suc k \<longrightarrow> \<not> inflightAt ?r2 i)"
          using seq1 by (simp add: inflightAt_def)
        have below2: "\<forall>i. k0 \<le> i \<and> i < changeIndex ?r2 \<longrightarrow> \<not> inflightAt ?r2 i"
          using seq2 True le2 by auto
        from Suc.hyps(1)[OF m lo2 le2 seq2 below2 run] show ?thesis by (simp add: ia)
      next
        case nadv: False
        with False fnd Suc.prems(5) g Inr upt
        have run: "canApplyChange_loop c [Suc k..<n] seq r1 = (res, r')"
          by (auto simp: inflightAt_def split: option.splits)
        from Suc.hyps(1)[OF m lo1 le1 seq1 below1 run] show ?thesis by (simp add: ia)
      qed
    qed
  qed
qed

lemma canApplyChange_advance:
  assumes "canApplyChange r c = (res, r')"
  shows "\<forall>i. changeIndex r \<le> i \<and> i < changeIndex r' \<longrightarrow> \<not> blocksChange c r i"
proof -
  have "\<forall>i. changeIndex r \<le> i \<and> i < changeIndex r' \<longrightarrow> \<not> inflightAt r i"
    by (rule canApplyChange_loop_advance[OF le_refl le_refl _ _ assms[unfolded canApplyChange_def]])
       auto
  then show ?thesis using blocksChange_inflight by blast
qed

lemma canApplyChange_again:
  assumes "canApplyChange r c = (Inr b, r')"
    and "networkChanges s = networkChanges r" and "changeIndex s = changeIndex r'"
    and "canApplyChange s c = (Inr b', s')"
  shows "b' = b"
proof -
  have blk: "blocksChange c s i = blocksChange c r i" for i
    using assms(2) by (simp add: blocksChange_def)
  note adv = canApplyChange_advance[OF assms(1)]
  have le: "changeIndex r \<le> changeIndex r'" using canApplyChange_net[OF assms(1)] by simp
  have "(\<exists>i. changeIndex r \<le> i \<and> i < nc_Index c \<and> blocksChange c r i) \<longleftrightarrow>
        (\<exists>i. changeIndex r' \<le> i \<and> i < nc_Index c \<and> blocksChange c r i)"
  proof
    assume "\<exists>i. changeIndex r \<le> i \<and> i < nc_Index c \<and> blocksChange c r i"
    then obtain i where i: "changeIndex r \<le> i" "i < nc_Index c" "blocksChange c r i" by blast
    with adv have "\<not> i < changeIndex r'" by blast
    with i show "\<exists>i. changeIndex r' \<le> i \<and> i < nc_Index c \<and> blocksChange c r i"
      by (intro exI[of _ i]) simp
  next
    assume "\<exists>i. changeIndex r' \<le> i \<and> i < nc_Index c \<and> blocksChange c r i"
    then obtain i where i: "changeIndex r' \<le> i" "i < nc_Index c" "blocksChange c r i" by blast
    with le show "\<exists>i. changeIndex r \<le> i \<and> i < nc_Index c \<and> blocksChange c r i"
      by (intro exI[of _ i]) simp
  qed
  with canApplyChange_result[OF assms(1)] canApplyChange_result[OF assms(4)] assms(3)
  show ?thesis by (simp add: blk)
qed

lemma networkChanges_Update_env:
  "faults r = [] \<Longrightarrow> networkChanges_Update r c = (res, r') \<Longrightarrow>
     faults r' = [] \<and> newChangeID r' = newChangeID r \<and> changeIndex r' = changeIndex r"
  by (auto dest: networkChanges_Update_effect)

lemma net_same_env:
  "faults r = [] \<Longrightarrow> net_same r r' \<Longrightarrow>
     faults r' = [] \<and> newChangeID r' = newChangeID r \<and> changeIndex r' = changeIndex r"
  by (simp add: net_same_def)

lemma canApplyChange_env:
  "faults r = [] \<Longrightarrow> canApplyChange r c = (res, r') \<Longrightarrow>
     faults r' = [] \<and> newChangeID r' = newChangeID r"
  by (auto simp: canApplyChange_def dest: canApplyChange_loop_frame)

lemma ensureDeviceChanges_env:
  assumes "faults r = []" "ensureDeviceChanges r c = (res, c', r')"
  shows "faults r' = [] \<and> newChangeID r' = newChangeID r \<and> changeIndex r' = changeIndex r"
proof -
  obtain l refs r1 where l: "ensureDeviceChanges_loop (nc_ID c) (nc_Changes c) False r = (l, refs, r1)"
    by (cases "ensureDeviceChanges_loop (nc_ID c) (nc_Changes c) False r")
  note e1 = net_same_env[OF assms(1) ensureDeviceChanges_loop_net_same[OF l]]
  from e1 have f1: "faults r1 = []" by simp
  from assms(2) l e1 show ?thesis
    by (auto simp: ensureDeviceChanges_def Let_def split: sum.splits if_splits prod.splits
             dest: networkChanges_Update_env[OF f1])
qed

lemma reconcilePendingChange_env:
  assumes "faults r = []" "reconcilePendingChange r c = (res, r')"
  shows "faults r' = [] \<and> newChangeID r' = newChangeID r"
proof -
  obtain a r1 where a: "canApplyChange r c = (a, r1)" by (cases "canApplyChange r c")
  note e1 = canApplyChange_env[OF assms(1) a]
  from e1 have f1: "faults r1 = []" by simp
  from assms(2) a e1 show ?thesis
    by (auto simp: reconcilePendingChange_def split: sum.splits if_splits prod.splits
             dest: networkChanges_Update_env[OF f1])
qed

lemma reconcileRunningChange_env:
  assumes "faults r = []" "reconcileRunningChange r c = (res, r')"
  shows "faults r' = [] \<and> newChangeID r' = newChangeID r \<and> changeIndex r' = changeIndex r"
proof -
  obtain g r1 where g: "getDeviceChanges r c = (g, r1)" by (cases "getDeviceChanges r c")
  note e1 = net_same_env[OF assms(1) getDeviceChanges_net_same[OF g]]
  from e1 have f1: "faults r1 = []" by simp
  show ?thesis
  proof (cases g)
    case (Inl e)
    with assms(2) g e1 show ?thesis by (simp add: reconcileRunningChange_def)
  next
    case (Inr ds0)
    obtain x ds1 r2 where x: "ensureDeviceChangesRunning r1 ds0 = (x, ds1, r2)"
      by (cases "ensureDeviceChangesRunning r1 ds0")
    note e2 = net_same_env[OF f1 ensureDeviceChangesRunning_net_same[OF x]]
    from e2 have f2: "faults r2 = []" by simp
    obtain y ds2 r3 where y: "ensureDeviceChangeRollbacksRunning r2 ds1 = (y, ds2, r3)"
      by (cases "ensureDeviceChangeRollbacksRunning r2 ds1")
    note e3 = net_same_env[OF f2 ensureDeviceChangeRollbacksRunning_net_same[OF y]]
    from e3 have f3: "faults r3 = []" by simp
    from assms(2) g Inr x y e1 e2 e3 show ?thesis
      by (auto simp: reconcileRunningChange_def
               split: sum.splits if_splits prod.splits bool.splits
               dest: networkChanges_Update_env[OF f2] networkChanges_Update_env[OF f3])
  qed
qed

lemma reconcileChange_env:
  assumes "faults r = []" "reconcileChange r c = (res, r')"
  shows "faults r' = [] \<and> newChangeID r' = newChangeID r"
  using assms
  by (auto simp: reconcileChange_def split: State.splits
           dest: reconcilePendingChange_env reconcileRunningChange_env)

lemma reconcilePendingRollback_env:
  assumes "faults r = []" "reconcilePendingRollback r c = (res, r')"
  shows "faults r' = [] \<and> newChangeID r' = newChangeID r \<and> changeIndex r' = changeIndex r"
proof -
  obtain a r1 where a: "canApplyRollback r c = (a, r1)" by (cases "canApplyRollback r c")
  note e1 = net_same_env[OF assms(1) canApplyRollback_net_same[OF a]]
  from e1 have f1: "faults r1 = []" by simp
  from assms(2) a e1 show ?thesis
    by (auto simp: reconcilePendingRollback_def split: sum.splits if_splits prod.splits
             dest: networkChanges_Update_env[OF f1])
qed

lemma reconcileRunningRollback_env:
  assumes "faults r = []" "reconcileRunningRollback r c = (res, r')"
  shows "faults r' = [] \<and> newChangeID r' = newChangeID r \<and> changeIndex r' = changeIndex r"
proof -
  obtain x r1 where x: "ensureDeviceRollbacksRunning r c = (x, r1)"
    by (cases "ensureDeviceRollbacksRunning r c")
  note e1 = net_same_env[OF assms(1) ensureDeviceRollbacksRunning_net_same[OF x]]
  from e1 have f1: "faults r1 = []" by simp
  obtain y r2 where y: "isRollbackComplete r1 c = (y, r2)" by (cases "isRollbackComplete r1 c")
  note e2 = net_same_env[OF f1 isRollbackComplete_net_same[OF y]]
  from e2 have f2: "faults r2 = []" by simp
  from assms(2) x y e1 e2 show ?thesis
    by (auto simp: reconcileRunningRollback_def split: sum.splits if_splits prod.splits
             dest: networkChanges_Update_env[OF f2])
qed

lemma reconcileRollback_env:
  assumes "faults r = []" "reconcileRollback r c = (res, r')"
  shows "faults r' = [] \<and> newChangeID r' = newChangeID r \<and> changeIndex r' = changeIndex r"
proof -
  obtain x r1 where x: "ensureDeviceRollbacks r c = (x, r1)"
    by (cases "ensureDeviceRollbacks r c")
  note e1 = net_same_env[OF assms(1) ensureDeviceRollbacks_net_same[OF x]]
  from e1 have f1: "faults r1 = []" by simp
  from assms(2) x e1 show ?thesis
    by (auto simp: reconcileRollback_def split: sum.splits if_splits State.splits
             dest: reconcilePendingRollback_env[OF f1] reconcileRunningRollback_env[OF f1])
qed

lemma Reconcile_env:
  assumes "faults r = []" "Reconcile r i = (res, r')"
  shows "faults r' = [] \<and> newChangeID r' = newChangeID r"
proof -
  have g: "networkChanges_Get r i = (Inr (find (\<lambda>c. nc_ID c = i) (networkChanges r)), r)"
    by (rule networkChanges_Get_nofault[OF assms(1)])
  show ?thesis
  proof (cases "find (\<lambda>c. nc_ID c = i) (networkChanges r)")
    case None
    with assms g show ?thesis by (simp add: Reconcile_def)
  next
    case (Some c0)
    obtain x c r2 where x: "ensureDeviceChanges r c0 = (x, c, r2)"
      by (cases "ensureDeviceChanges r c0")
    note e2 = ensureDeviceChanges_env[OF assms(1) x]
    from e2 have f2: "faults r2 = []" by simp
    from assms(2) g Some x e2 show ?thesis
      by (auto simp: Reconcile_def split: sum.splits if_splits Phase.splits
               dest: reconcileChange_env[OF f2] reconcileRollback_env[OF f2])
  qed
qed

lemma Reconcile_changeIndex_advance:
  assumes f: "faults r = []" and rec: "Reconcile r i = (res, r')"
  shows "\<exists>r''. Reconcile (r\<lparr>changeIndex := changeIndex r'\<rparr>) i = (res, r'') \<and>
               networkChanges r'' = networkChanges r' \<and> deviceChanges r'' = deviceChanges r'"
proof -
  have g: "networkChanges_Get r i = (Inr (find (\<lambda>c. nc_ID c = i) (networkChanges r)), r)"
    by (rule networkChanges_Get_nofault[OF f])
  have trivial: ?thesis if "changeIndex r' = changeIndex r"
  proof -
    from that have "r\<lparr>changeIndex := changeIndex r'\<rparr> = r" by simp
    with rec show ?thesis by simp
  qed
  show ?thesis
  proof (cases "find (\<lambda>c. nc_ID c = i) (networkChanges r)")
    case None
    with rec g have "r' = r" by (simp add: Reconcile_def)
    then show ?thesis by (intro trivial) simp
  next
    case (Some c)
    then have id: "nc_ID c = i" by (auto simp: find_Some_iff)
    obtain x c' r2 where x: "ensureDeviceChanges r c = (x, c', r2)"
      by (cases "ensureDeviceChanges r c")
    note e2 = ensureDeviceChanges_env[OF f x]
    show ?thesis
    proof (cases "x = Inr False")
      case False
      with rec g Some x have "r' = r2" by (auto simp: Reconcile_def split: sum.splits if_splits)
      with e2 show ?thesis by (intro trivial) simp
    next
      case True
      with x ensureDeviceChanges_False[of r c c' r2]
      have same: "c' = c" "r2 = r" and mat: "\<forall>ref\<in>set (nc_Changes c). ref_ID ref \<noteq> []"
        by simp_all
      have ens: "ensureDeviceChanges s c = (Inr False, c, s)" for s :: Reconciler
        using mat by (simp add: ensureDeviceChanges_def ensureDeviceChanges_materialised)
      show ?thesis
      proof (cases "Phase (nc_Status c) = CHANGE \<and> State (nc_Status c) = PENDING")
        case False
        have "changeIndex r' = changeIndex r"
        proof (cases "Phase (nc_Status c)")
          case CHANGE
          with False have ns: "State (nc_Status c) \<noteq> PENDING" by simp
          from rec g Some ens CHANGE have "reconcileChange r c = (res, r')"
            by (simp add: Reconcile_def)
          with ns show ?thesis
            by (cases "State (nc_Status c)")
               (auto simp: reconcileChange_def dest: reconcileRunningChange_env[OF f])
        next
          case ROLLBACK
          with rec g Some ens have "reconcileRollback r c = (res, r')"
            by (simp add: Reconcile_def)
          from reconcileRollback_env[OF f this] show ?thesis by simp
        qed
        then show ?thesis by (rule trivial)
      next
        case pending: True
        from rec g Some ens pending have rp: "reconcilePendingChange r c = (res, r')"
          by (simp add: Reconcile_def reconcileChange_def)
        from canApplyChange_nofault[OF f, of c] obtain b k where
          ca: "canApplyChange r c = (Inr b, r\<lparr>changeIndex := k\<rparr>)" by blast
        let ?r1 = "r\<lparr>changeIndex := k\<rparr>"
        have f1: "faults ?r1 = []" using f by simp
        from canApplyChange_nofault[OF f1, of c] obtain b' k' where
          ca': "canApplyChange ?r1 c = (Inr b', ?r1\<lparr>changeIndex := k'\<rparr>)" by blast
        have bb: "b' = b"
          by (rule canApplyChange_again[OF ca _ _ ca']) simp_all
        let ?c1 = "c\<lparr>nc_Status := (nc_Status c)\<lparr>State := RUNNING\<rparr>\<rparr>"
        have up: "networkChanges_Update s ?c1 =
                    (Inr (), s\<lparr>networkChanges :=
                                 map (\<lambda>x. if nc_ID x = nc_ID ?c1 then ?c1 else x) (networkChanges s)\<rparr>)"
          if "faults s = []" "networkChanges s = networkChanges r" for s :: Reconciler
          by (rule networkChanges_Update_nofault) (use that Some id in simp_all)
        have g1: "networkChanges_Get ?r1 i = (Inr (Some c), ?r1)"
          using networkChanges_Get_nofault[OF f1, of i] Some by simp
        show ?thesis
        proof (cases b)
          case False
          with rp ca have r': "res = Inr False" "r' = ?r1"
            by (simp_all add: reconcilePendingChange_def)
          have "Reconcile ?r1 i = (Inr False, ?r1\<lparr>changeIndex := k'\<rparr>)"
            using False bb
            by (simp add: Reconcile_def g1 ens pending reconcileChange_def
                  reconcilePendingChange_def ca')
          with r' show ?thesis by simp
        next
          case True
          with rp ca up[of ?r1] f have r': "res = Inr True"
            "r' = ?r1\<lparr>networkChanges :=
                       map (\<lambda>x. if nc_ID x = nc_ID ?c1 then ?c1 else x) (networkChanges r)\<rparr>"
            by (simp_all add: reconcilePendingChange_def)
          then have k: "changeIndex r' = k" by simp
          let ?r2 = "?r1\<lparr>changeIndex := k'\<rparr>"
          have "Reconcile ?r1 i =
                  (Inr True, ?r2\<lparr>networkChanges :=
                       map (\<lambda>x. if nc_ID x = nc_ID ?c1 then ?c1 else x) (networkChanges r)\<rparr>)"
            using True bb up[of ?r2] f
            by (simp add: Reconcile_def g1 ens pending reconcileChange_def
                  reconcilePendingChange_def ca')
          with r' show ?thesis unfolding k by simp
        qed
      qed
    qed
  qed
qed

section \<open>The claims\<close>

subsection \<open>C1: an overlapping earlier change blocks admission\<close>

text \<open>
  C1 does not hold as stated, for every store state: \<^verbatim>\<open>canApplyChange\<close> starts its scan at
  \<^verbatim>\<open>changeIndex\<close>. Here \<^verbatim>\<open>changeIndex\<close> is 2, as the reconciler's own first call left it;
  \<open>nc1\<close> (index 1) is PENDING again and shares the device \<open>d1\<close> with \<open>nc4\<close> (index 4); yet
  \<^verbatim>\<open>canApplyChange\<close> returns true for \<open>nc4\<close> and \<^verbatim>\<open>Reconcile\<close> moves it to RUNNING.
\<close>

theorem reopened_prior_change_counterexample:
  "changeIndex (snd (Reconcile startedQueue ''nc3'')) = changeIndex reopenedQueue \<and>
   find (\<lambda>x. nc_Index x = 1) (networkChanges reopenedQueue)
     = Some (exampleNetworkChange ''nc1'' 1 [exampleRef ''dc1'' 1 ''d1''] ROLLBACK PENDING) \<and>
   find (\<lambda>x. nc_Index x = 4) (networkChanges reopenedQueue)
     = Some (exampleNetworkChange ''nc4'' 4 [exampleRef ''dc4'' 4 ''d1''] CHANGE PENDING) \<and>
   ref_DeviceID (exampleRef ''dc1'' 1 ''d1'') = ref_DeviceID (exampleRef ''dc4'' 4 ''d1'') \<and>
   fst (canApplyChange reopenedQueue
          (exampleNetworkChange ''nc4'' 4 [exampleRef ''dc4'' 4 ''d1''] CHANGE PENDING)) = Inr True \<and>
   fst (Reconcile reopenedQueue ''nc4'') = Inr True \<and>
   find (\<lambda>x. nc_Index x = 4) (networkChanges (snd (Reconcile reopenedQueue ''nc4'')))
     = Some (exampleNetworkChange ''nc4'' 4 [exampleRef ''dc4'' 4 ''d1''] CHANGE RUNNING) \<and>
   find (\<lambda>x. nc_Index x = 1) (networkChanges (snd (Reconcile reopenedQueue ''nc4'')))
     = Some (exampleNetworkChange ''nc1'' 1 [exampleRef ''dc1'' 1 ''d1''] ROLLBACK PENDING)"
  by code_simp

text \<open>
  C1, amended. Let \<open>p\<close> be the network change the store holds at its index, at or above
  \<^verbatim>\<open>changeIndex\<close> and below the index of \<open>c\<close>, in state PENDING or RUNNING and sharing a
  DeviceID with \<open>c\<close>. Then \<^verbatim>\<open>canApplyChange\<close> does not admit \<open>c\<close>: it never returns true, and
  it returns (false, nil) when no store call fails. And \<^verbatim>\<open>Reconcile\<close> of \<open>c\<close>, stored in phase
  CHANGE and state PENDING, leaves it in state PENDING, whatever store calls fail.
\<close>

theorem overlapping_prior_change_blocks:
  assumes p: "find (\<lambda>x. nc_Index x = nc_Index p) (networkChanges r) = Some p"
    and lo: "changeIndex r \<le> nc_Index p"
    and hi: "nc_Index p < nc_Index c"
    and fl: "State (nc_Status p) = PENDING \<or> State (nc_Status p) = RUNNING"
    and ov: "ref_DeviceID ` set (nc_Changes c) \<inter> ref_DeviceID ` set (nc_Changes p) \<noteq> {}"
  shows "fst (canApplyChange r c) \<noteq> Inr True \<and>
         (faults r = [] \<longrightarrow> fst (canApplyChange r c) = Inr False) \<and>
         (find (\<lambda>x. nc_ID x = nc_ID c) (networkChanges r) = Some c \<and>
          Phase (nc_Status c) = CHANGE \<and> State (nc_Status c) = PENDING \<longrightarrow>
            map_option (\<lambda>x. State (nc_Status x))
              (find (\<lambda>x. nc_ID x = nc_ID c) (networkChanges (snd (Reconcile r (nc_ID c)))))
            = Some PENDING)"
proof (intro conjI impI)
  have blk: "blocksChange c r (nc_Index p)"
    unfolding blocksChange_iff using p fl ov by blast
  have nt: "b = False" if "canApplyChange r c = (Inr b, r')" for b r'
    using canApplyChange_result[OF that] lo hi blk by blast
  show "fst (canApplyChange r c) \<noteq> Inr True"
    using nt by (cases "canApplyChange r c") auto
  show "fst (canApplyChange r c) = Inr False" if "faults r = []"
    using canApplyChange_nofault[OF that, of c] nt by auto
  assume c: "find (\<lambda>x. nc_ID x = nc_ID c) (networkChanges r) = Some c \<and>
          Phase (nc_Status c) = CHANGE \<and> State (nc_Status c) = PENDING"
  let ?get = "\<lambda>s :: Reconciler.
       map_option (\<lambda>x. State (nc_Status x)) (find (\<lambda>x. nc_ID x = nc_ID c) (networkChanges s))"
  have keep: "?get s = Some PENDING" if "networkChanges s = networkChanges r"
    for s :: Reconciler
    using that c by simp
  obtain g r1 where g: "networkChanges_Get r (nc_ID c) = (g, r1)"
    by (cases "networkChanges_Get r (nc_ID c)")
  note s1 = networkChanges_Get_net_same[OF g]
  show "?get (snd (Reconcile r (nc_ID c))) = Some PENDING"
  proof (cases g)
    case (Inl e)
    with g keep[OF net_sameD(1)[OF s1]] show ?thesis by (simp add: Reconcile_def)
  next
    case (Inr found)
    with g c have found: "found = Some c"
      by (auto simp: networkChanges_Get_def split: prod.splits if_splits dest: storeCall_frame)
    obtain e c' r2 where e: "ensureDeviceChanges r1 c = (e, c', r2)"
      by (cases "ensureDeviceChanges r1 c")
    note n2 = ensureDeviceChanges_net[OF e]
    note k2 = ensureDeviceChanges_config[OF e]
    have get2: "?get r2 = Some PENDING"
    proof -
      from n2 consider "networkChanges r2 = networkChanges r1"
        | "networkChanges r2 = map (\<lambda>x. if nc_ID x = nc_ID c then c' else x) (networkChanges r1)"
        by blast
      then show ?thesis
      proof cases
        case 1
        with net_sameD(1)[OF s1] have "networkChanges r2 = networkChanges r" by simp
        then show ?thesis by (rule keep)
      next
        case 2
        from c net_sameD(1)[OF s1]
        have "find (\<lambda>x. nc_ID x = nc_ID c) (networkChanges r1) = Some c" by simp
        from find_replace_same[OF _ this, of c'] k2 2 c show ?thesis by simp
      qed
    qed
    show ?thesis
    proof (cases "e = Inr False")
      case True
      with ensureDeviceChanges_False e have same: "c' = c" "r2 = r1" by blast+
      obtain res r3 where rp: "reconcilePendingChange r1 c = (res, r3)"
        by (cases "reconcilePendingChange r1 c")
      have "blocksChange c r1 (nc_Index p)" using blk net_sameD(1)[OF s1] by (simp add: blocksChange_def)
      from reconcilePendingChange_blocked[OF _ hi this rp] lo net_sameD(1,2)[OF s1]
      have "networkChanges r3 = networkChanges r" by simp
      then have "?get r3 = Some PENDING" by (rule keep)
      with g Inr found e True same rp c show ?thesis
        by (simp add: Reconcile_def reconcileChange_def)
    next
      case False
      with g Inr found e get2 show ?thesis
        by (auto simp: Reconcile_def split: sum.splits)
    qed
  qed
qed

theorem overlapping_prior_change_blocks_witness:
  "find (\<lambda>x. nc_Index x = 1) (networkChanges twoRunning)
     = Some (exampleNetworkChange ''nc1'' 1 [exampleRef ''dc1'' 1 ''d1''] CHANGE RUNNING) \<and>
   changeIndex twoRunning \<le> 1 \<and>
   fst (canApplyChange twoRunning
          (exampleNetworkChange ''nc3'' 3 [exampleRef ''dc3'' 3 ''d1''] CHANGE PENDING)) = Inr False \<and>
   map_option (\<lambda>x. State (nc_Status x))
     (find (\<lambda>x. nc_ID x = ''nc3'') (networkChanges (snd (Reconcile twoRunning ''nc3''))))
     = Some PENDING"
proof -
  let ?p = "exampleNetworkChange ''nc1'' 1 [exampleRef ''dc1'' 1 ''d1''] CHANGE RUNNING"
  let ?c = "exampleNetworkChange ''nc3'' 3 [exampleRef ''dc3'' 3 ''d1''] CHANGE PENDING"
  have h1: "find (\<lambda>x. nc_Index x = nc_Index ?p) (networkChanges twoRunning) = Some ?p"
    by (simp add: twoRunning_def example_defs)
  have h2: "changeIndex twoRunning \<le> nc_Index ?p"
    by (simp add: twoRunning_def example_defs)
  have h3: "nc_Index ?p < nc_Index ?c" by (simp add: example_defs)
  have h4: "State (nc_Status ?p) = PENDING \<or> State (nc_Status ?p) = RUNNING"
    by (simp add: example_defs)
  have h5: "ref_DeviceID ` set (nc_Changes ?c) \<inter> ref_DeviceID ` set (nc_Changes ?p) \<noteq> {}"
    by (simp add: example_defs)
  have f: "faults twoRunning = []" by (simp add: twoRunning_def example_defs)
  have c: "find (\<lambda>x. nc_ID x = nc_ID ?c) (networkChanges twoRunning) = Some ?c \<and>
           Phase (nc_Status ?c) = CHANGE \<and> State (nc_Status ?c) = PENDING"
    by (simp add: twoRunning_def example_defs)
  have i: "nc_Index ?p = 1" "nc_ID ?c = ''nc3''" by (simp_all add: example_defs)
  from overlapping_prior_change_blocks[OF h1 h2 h3 h4 h5] f c h1 h2
  show ?thesis unfolding i by blast
qed

subsection \<open>C2: rollback on failure\<close>




subsection \<open>C3: admission of a change\<close>

text \<open>
  C3. \<^verbatim>\<open>canApplyChange\<close> looks at the indexes from \<^verbatim>\<open>changeIndex\<close> up to but excluding
  \<^verbatim>\<open>c.Index\<close>. Whenever it returns a boolean, that is false exactly when the network
  change stored at some index of this range is PENDING or RUNNING and shares a DeviceID with
  \<open>c\<close>, and true otherwise: an in-flight change that does not intersect \<open>c\<close> does not block.
  With no store call failing it always returns a boolean.
\<close>

theorem canApplyChange_admission:
  "(\<forall>b. fst (canApplyChange r c) = Inr b \<longrightarrow>
        b = (\<not> (\<exists>i p. changeIndex r \<le> i \<and> i < nc_Index c \<and>
                 find (\<lambda>x. nc_Index x = i) (networkChanges r) = Some p \<and>
                 (State (nc_Status p) = PENDING \<or> State (nc_Status p) = RUNNING) \<and>
                 ref_DeviceID ` set (nc_Changes c) \<inter> ref_DeviceID ` set (nc_Changes p) \<noteq> {})))
   \<and> (faults r = [] \<longrightarrow> (\<exists>b. fst (canApplyChange r c) = Inr b))"
proof (intro conjI allI impI)
  fix b assume "fst (canApplyChange r c) = Inr b"
  then obtain r' where "canApplyChange r c = (Inr b, r')" by (cases "canApplyChange r c") simp
  from canApplyChange_result[OF this]
  show "b = (\<not> (\<exists>i p. changeIndex r \<le> i \<and> i < nc_Index c \<and>
                 find (\<lambda>x. nc_Index x = i) (networkChanges r) = Some p \<and>
                 (State (nc_Status p) = PENDING \<or> State (nc_Status p) = RUNNING) \<and>
                 ref_DeviceID ` set (nc_Changes c) \<inter> ref_DeviceID ` set (nc_Changes p) \<noteq> {}))"
    unfolding blocksChange_iff by blast
next
  assume "faults r = []"
  from canApplyChange_nofault[OF this, of c]
  show "\<exists>b. fst (canApplyChange r c) = Inr b" by auto
qed

theorem canApplyChange_admission_witness:
  "faults twoRunning = [] \<and>
   fst (canApplyChange twoRunning
          (exampleNetworkChange ''nc2'' 2 [exampleRef ''dc2'' 2 ''d2''] CHANGE PENDING)) = Inr True \<and>
   fst (canApplyChange twoRunning
          (exampleNetworkChange ''nc3'' 3 [exampleRef ''dc3'' 3 ''d1''] CHANGE PENDING)) = Inr False \<and>
   (\<exists>i p. changeIndex twoRunning \<le> i \<and> i < 3 \<and>
          find (\<lambda>x. nc_Index x = i) (networkChanges twoRunning) = Some p \<and>
          (State (nc_Status p) = PENDING \<or> State (nc_Status p) = RUNNING) \<and>
          ref_DeviceID ` set [exampleRef ''dc3'' 3 ''d1''] \<inter> ref_DeviceID ` set (nc_Changes p) \<noteq> {})"
proof -
  let ?c2 = "exampleNetworkChange ''nc2'' 2 [exampleRef ''dc2'' 2 ''d2''] CHANGE PENDING"
  let ?c3 = "exampleNetworkChange ''nc3'' 3 [exampleRef ''dc3'' 3 ''d1''] CHANGE PENDING"
  have f: "faults twoRunning = []" by (simp add: twoRunning_def example_defs)
  have e2: "fst (canApplyChange twoRunning ?c2) = Inr True" by code_simp
  have e3: "fst (canApplyChange twoRunning ?c3) = Inr False" by code_simp
  have i3: "nc_Index ?c3 = 3" "nc_Changes ?c3 = [exampleRef ''dc3'' 3 ''d1'']"
    by (simp_all add: example_defs)
  from canApplyChange_admission[of twoRunning ?c3] e3
  have "\<exists>i p. changeIndex twoRunning \<le> i \<and> i < nc_Index ?c3 \<and>
          find (\<lambda>x. nc_Index x = i) (networkChanges twoRunning) = Some p \<and>
          (State (nc_Status p) = PENDING \<or> State (nc_Status p) = RUNNING) \<and>
          ref_DeviceID ` set (nc_Changes ?c3) \<inter> ref_DeviceID ` set (nc_Changes p) \<noteq> {}"
    by blast
  with f e2 e3 show ?thesis unfolding i3 by blast
qed

subsection \<open>C4: idempotence\<close>

text \<open>
  C4 does not hold as stated: a call performs one transition, and the next call the
  following one. Here the first call moves the network change to RUNNING and leaves its
  device change PENDING; the second call, with no write in between, moves the device change
  to RUNNING.
\<close>

theorem reconcile_twice_counterexample:
  "map (\<lambda>x. State (nc_Status x)) (networkChanges (snd (Reconcile singlePending ''nc1'')))
     = [RUNNING] \<and>
   map (\<lambda>x. State (dc_Status x)) (deviceChanges (snd (Reconcile singlePending ''nc1'')))
     = [PENDING] \<and>
   map (\<lambda>x. State (dc_Status x))
     (deviceChanges (snd (Reconcile (snd (Reconcile singlePending ''nc1'')) ''nc1'')))
     = [RUNNING]"
  by code_simp

text \<open>
  C4, amended. \<^verbatim>\<open>Reconcile\<close> is idempotent where it has come to rest: when a call, with no
  store call failing, leaves both stores as they were, a second call with no write in
  between returns the same result and leaves both stores as they were, although the first
  call may have advanced \<^verbatim>\<open>changeIndex\<close>.
\<close>

theorem reconcile_idempotent_when_idle:
  assumes "faults r = []"
    and "networkChanges (snd (Reconcile r i)) = networkChanges r"
    and "deviceChanges (snd (Reconcile r i)) = deviceChanges r"
  shows "fst (Reconcile (snd (Reconcile r i)) i) = fst (Reconcile r i) \<and>
         networkChanges (snd (Reconcile (snd (Reconcile r i)) i)) = networkChanges r \<and>
         deviceChanges (snd (Reconcile (snd (Reconcile r i)) i)) = deviceChanges r"
proof -
  obtain res r' where rec: "Reconcile r i = (res, r')" by (cases "Reconcile r i")
  from Reconcile_env[OF assms(1) rec] assms(1,2,3) rec
  have "r' = r\<lparr>changeIndex := changeIndex r'\<rparr>" by (intro Reconciler.equality) simp_all
  with Reconcile_changeIndex_advance[OF assms(1) rec] obtain r'' where
    "Reconcile r' i = (res, r'')" "networkChanges r'' = networkChanges r'"
    "deviceChanges r'' = deviceChanges r'"
    by auto
  with rec assms(2,3) show ?thesis by simp
qed

theorem reconcile_idempotent_when_idle_witness:
  "faults blockedBehindRunning = [] \<and>
   networkChanges (snd (Reconcile blockedBehindRunning ''nc3'')) = networkChanges blockedBehindRunning \<and>
   deviceChanges (snd (Reconcile blockedBehindRunning ''nc3'')) = deviceChanges blockedBehindRunning \<and>
   changeIndex (snd (Reconcile blockedBehindRunning ''nc3'')) = 1 \<and>
   fst (Reconcile blockedBehindRunning ''nc3'') = Inr False \<and>
   fst (Reconcile (snd (Reconcile blockedBehindRunning ''nc3'')) ''nc3'') = Inr False \<and>
   networkChanges (snd (Reconcile (snd (Reconcile blockedBehindRunning ''nc3'')) ''nc3''))
     = networkChanges blockedBehindRunning \<and>
   deviceChanges (snd (Reconcile (snd (Reconcile blockedBehindRunning ''nc3'')) ''nc3''))
     = deviceChanges blockedBehindRunning"
proof -
  let ?r = blockedBehindRunning
  have f: "faults ?r = []" by (simp add: blockedBehindRunning_def example_defs)
  have n: "networkChanges (snd (Reconcile ?r ''nc3'')) = networkChanges ?r" by code_simp
  have d: "deviceChanges (snd (Reconcile ?r ''nc3'')) = deviceChanges ?r" by code_simp
  have k: "changeIndex (snd (Reconcile ?r ''nc3'')) = 1" by code_simp
  have e: "fst (Reconcile ?r ''nc3'') = Inr False" by code_simp
  from reconcile_idempotent_when_idle[OF f n d] f n d k e show ?thesis by simp
qed

subsection \<open>C5: device changes are materialised first\<close>

text \<open>
  C5. For a stored network change with at least one ref whose identifier is empty,
  \<^verbatim>\<open>Reconcile\<close> never returns (false, nil), and the stored parent has the same \<^verbatim>\<open>Status\<close>
  after the call as before, whatever store calls fail: no phase or state transition is made
  while a ref has no identifier. When no store call fails the call returns (true, nil), the
  device-change store has gained one device change for each such ref, and the persisted
  parent differs from the old one in its refs only: every ref that had no identifier carries
  the identifier and index of a created device change with the parent's identifier and the
  ref's device, version and values; every other ref is as before.
\<close>

theorem missing_device_changes_created_first:
  assumes c: "find (\<lambda>x. nc_ID x = i) (networkChanges r) = Some c"
    and e: "\<exists>ref\<in>set (nc_Changes c). ref_ID ref = []"
  shows "fst (Reconcile r i) \<noteq> Inr False \<and>
         map_option nc_Status (find (\<lambda>x. nc_ID x = i) (networkChanges (snd (Reconcile r i))))
           = Some (nc_Status c) \<and>
         (faults r = [] \<longrightarrow>
            fst (Reconcile r i) = Inr True \<and>
            (\<exists>refs' created.
               find (\<lambda>x. nc_ID x = i) (networkChanges (snd (Reconcile r i)))
                 = Some (c\<lparr>nc_Changes := refs'\<rparr>) \<and>
               deviceChanges (snd (Reconcile r i)) = deviceChanges r @ created \<and>
               length created = length (filter (\<lambda>ref. ref_ID ref = []) (nc_Changes c)) \<and>
               list_all2
                 (\<lambda>ref ref'.
                    if ref_ID ref = []
                    then \<exists>d\<in>set created.
                           ref' = ref\<lparr>ref_ID := dc_ID d, ref_Index := dc_Index d\<rparr> \<and>
                           dc_NetworkChangeID d = nc_ID c \<and>
                           dc_DeviceID d = ref_DeviceID ref \<and>
                           dc_DeviceVersion d = ref_DeviceVersion ref \<and>
                           dc_Values d = ref_Values ref
                    else ref' = ref)
                 (nc_Changes c) refs'))"
proof -
  from c have id: "nc_ID c = i" by (auto simp: find_Some_iff)
  obtain g r1 where g: "networkChanges_Get r i = (g, r1)" by (cases "networkChanges_Get r i")
  note s1 = networkChanges_Get_net_same[OF g]
  have c1: "find (\<lambda>x. nc_ID x = nc_ID c) (networkChanges r1) = Some c"
    using c id net_sameD(1)[OF s1] by simp
  have part1: "fst (Reconcile r i) \<noteq> Inr False \<and>
         map_option nc_Status (find (\<lambda>x. nc_ID x = i) (networkChanges (snd (Reconcile r i))))
           = Some (nc_Status c)"
  proof (cases g)
    case (Inl e')
    with g c net_sameD(1)[OF s1] show ?thesis by (simp add: Reconcile_def)
  next
    case (Inr found)
    with g c have found: "found = Some c"
      by (auto simp: networkChanges_Get_def split: prod.splits if_splits dest: storeCall_frame)
    obtain x c' r2 where x: "ensureDeviceChanges r1 c = (x, c', r2)"
      by (cases "ensureDeviceChanges r1 c")
    have nf: "x \<noteq> Inr False"
    proof
      assume "x = Inr False"
      with x ensureDeviceChanges_False[of r1 c c' r2] e show False by auto
    qed
    from ensureDeviceChanges_keeps_status[OF c1 x] id
    have st: "map_option nc_Status (find (\<lambda>x. nc_ID x = i) (networkChanges r2))
                = Some (nc_Status c)" by simp
    from g Inr found x nf st show ?thesis
      by (cases x) (auto simp: Reconcile_def)
  qed
  have part2: "fst (Reconcile r i) = Inr True \<and>
            (\<exists>refs' created.
               find (\<lambda>x. nc_ID x = i) (networkChanges (snd (Reconcile r i)))
                 = Some (c\<lparr>nc_Changes := refs'\<rparr>) \<and>
               deviceChanges (snd (Reconcile r i)) = deviceChanges r @ created \<and>
               length created = length (filter (\<lambda>ref. ref_ID ref = []) (nc_Changes c)) \<and>
               list_all2
                 (\<lambda>ref ref'.
                    if ref_ID ref = []
                    then \<exists>d\<in>set created.
                           ref' = ref\<lparr>ref_ID := dc_ID d, ref_Index := dc_Index d\<rparr> \<and>
                           dc_NetworkChangeID d = nc_ID c \<and>
                           dc_DeviceID d = ref_DeviceID ref \<and>
                           dc_DeviceVersion d = ref_DeviceVersion ref \<and>
                           dc_Values d = ref_Values ref
                    else ref' = ref)
                 (nc_Changes c) refs')" if f: "faults r = []"
  proof -
    from ensureDeviceChanges_loop_nofault[OF f, of "nc_ID c" "nc_Changes c" False] e
    obtain refs' created where
      run: "ensureDeviceChanges_loop (nc_ID c) (nc_Changes c) False r =
              (Inr True, refs', r\<lparr>deviceChanges := deviceChanges r @ created\<rparr>)"
      and len: "length created = length (filter (\<lambda>ref. ref_ID ref = []) (nc_Changes c))"
      and rel: "list_all2 (materialises (nc_ID c) created) (nc_Changes c) refs'"
      by auto
    let ?r1 = "r\<lparr>deviceChanges := deviceChanges r @ created\<rparr>"
    let ?c' = "c\<lparr>nc_Changes := refs'\<rparr>"
    let ?r2 = "?r1\<lparr>networkChanges :=
                 map (\<lambda>x. if nc_ID x = nc_ID ?c' then ?c' else x) (networkChanges ?r1)\<rparr>"
    have "networkChanges_Update ?r1 ?c' = (Inr (), ?r2)"
      by (rule networkChanges_Update_nofault) (use f c id in simp_all)
    with run have ens: "ensureDeviceChanges r c = (Inr True, ?c', ?r2)"
      by (simp add: ensureDeviceChanges_def Let_def)
    have rec: "Reconcile r i = (Inr True, ?r2)"
      by (simp add: Reconcile_def networkChanges_Get_nofault[OF f] c ens)
    have fnd: "find (\<lambda>x. nc_ID x = i) (networkChanges ?r2) = Some ?c'"
      using find_replace_same[of ?c' i "networkChanges r" c] c id by simp
    have rel': "list_all2
                 (\<lambda>ref ref'.
                    if ref_ID ref = []
                    then \<exists>d\<in>set created.
                           ref' = ref\<lparr>ref_ID := dc_ID d, ref_Index := dc_Index d\<rparr> \<and>
                           dc_NetworkChangeID d = nc_ID c \<and>
                           dc_DeviceID d = ref_DeviceID ref \<and>
                           dc_DeviceVersion d = ref_DeviceVersion ref \<and>
                           dc_Values d = ref_Values ref
                    else ref' = ref)
                 (nc_Changes c) refs'"
      using rel by (rule list_all2_mono) (auto simp: materialises_def list_ex_iff split: if_splits)
    have res: "fst (Reconcile r i) = Inr True" using rec by simp
    have fnd': "find (\<lambda>x. nc_ID x = i) (networkChanges (snd (Reconcile r i))) = Some ?c'"
      using rec fnd by simp
    have dev: "deviceChanges (snd (Reconcile r i)) = deviceChanges r @ created"
      using rec by simp
    show ?thesis
      apply (rule conjI[OF res])
      apply (rule exI[of _ refs'])
      apply (rule exI[of _ created])
      apply (intro conjI fnd' dev len rel')
      done
  qed
  from part1 part2 show ?thesis by blast
qed

theorem missing_device_changes_created_first_witness:
  "find (\<lambda>x. nc_ID x = ''nc1'') (networkChanges (unmaterialised []))
     = Some (exampleNetworkChange ''nc1'' 1 [exampleRef [] 0 ''d1''] CHANGE PENDING) \<and>
   ref_ID (exampleRef [] 0 ''d1'') = [] \<and>
   faults (unmaterialised []) = [] \<and>
   fst (Reconcile (unmaterialised []) ''nc1'') = Inr True \<and>
   map_option nc_Status
     (find (\<lambda>x. nc_ID x = ''nc1'') (networkChanges (snd (Reconcile (unmaterialised []) ''nc1''))))
     = Some \<lparr>Phase = CHANGE, State = PENDING, Reason = NONE\<rparr>"
proof -
  let ?c = "exampleNetworkChange ''nc1'' 1 [exampleRef [] 0 ''d1''] CHANGE PENDING"
  have h1: "find (\<lambda>x. nc_ID x = ''nc1'') (networkChanges (unmaterialised [])) = Some ?c"
    by (simp add: unmaterialised_def example_defs)
  have h2: "\<exists>ref\<in>set (nc_Changes ?c). ref_ID ref = []"
    by (simp add: example_defs)
  have f: "faults (unmaterialised []) = []"
    by (simp add: unmaterialised_def example_defs)
  have s: "nc_Status ?c = \<lparr>Phase = CHANGE, State = PENDING, Reason = NONE\<rparr>"
    "ref_ID (exampleRef [] 0 ''d1'') = []"
    by (simp_all add: example_defs)
  from missing_device_changes_created_first[OF h1 h2] f h1 s
  show ?thesis by simp
qed

subsection \<open>C6: the failed write at the end of a rollback\<close>

text \<open>
  C6 does not hold as stated: when the last write fails, the result is (false, nil), not
  (true, nil). Here the four reads succeed and the write of the parent fails; the call
  returns (false, nil) and leaves the stores as they were. With no failure it returns
  (true, nil) and the parent is COMPLETE.
\<close>

theorem rollback_complete_write_failure_counterexample:
  "fst (Reconcile (rolledBack [False, False, False, False, True]) ''nc1'') = Inr False \<and>
   snd (Reconcile (rolledBack [False, False, False, False, True]) ''nc1'') = rolledBack [] \<and>
   fst (Reconcile (rolledBack []) ''nc1'') = Inr True \<and>
   map (\<lambda>x. State (nc_Status x)) (networkChanges (snd (Reconcile (rolledBack []) ''nc1'')))
     = [COMPLETE]"
  by (simp add: rolledBack_def example_defs Reconcile_def networkChanges_Get_def storeCall_def
        ensureDeviceChanges_def reconcileRollback_def ensureDeviceRollbacks_def
        deviceChanges_Get_def reconcileRunningRollback_def ensureDeviceRollbacksRunning_def
        isRollbackComplete_def networkChanges_Update_def)

text \<open>
  C6, amended. Take a stored network change in phase ROLLBACK and state RUNNING, every
  ref with an identifier and its device change in (ROLLBACK, COMPLETE), and a script in
  which the reads of the call succeed (one for the parent, three for each ref) and the next
  call, the write of the parent, fails. Then \<^verbatim>\<open>Reconcile\<close> returns (false, nil): the error is
  not returned, and nothing but the script has changed.
\<close>

theorem rollback_complete_write_failure:
  assumes c: "find (\<lambda>x. nc_ID x = i) (networkChanges r) = Some c"
    and ph: "Phase (nc_Status c) = ROLLBACK" and st: "State (nc_Status c) = RUNNING"
    and ch: "\<forall>ref\<in>set (nc_Changes c). ref_ID ref \<noteq> [] \<and>
               (\<exists>d. find (\<lambda>d. dc_ID d = ref_ID ref) (deviceChanges r) = Some d \<and>
                    Phase (dc_Status d) = ROLLBACK \<and> State (dc_Status d) = COMPLETE)"
    and fs: "faults r = replicate (1 + 3 * length (nc_Changes c)) False @ True # fs"
  shows "Reconcile r i = (Inr False, r\<lparr>faults := fs\<rparr>)"
proof -
  let ?n = "length (nc_Changes c)"
  let ?f3 = "True # fs"
  let ?f2 = "replicate ?n False @ ?f3"
  let ?f1 = "replicate ?n False @ ?f2"
  let ?f0 = "replicate ?n False @ ?f1"
  have split: "faults r = False # ?f0"
    unfolding fs by (simp add: replicate_add[symmetric])
  let ?r0 = "r\<lparr>faults := ?f0\<rparr>"
  let ?r1 = "r\<lparr>faults := ?f1\<rparr>"
  let ?r2 = "r\<lparr>faults := ?f2\<rparr>"
  let ?r3 = "r\<lparr>faults := ?f3\<rparr>"
  have g: "networkChanges_Get r i = (Inr (Some c), ?r0)"
    using networkChanges_Get_ok[OF split, of i] c by simp
  have e: "ensureDeviceChanges ?r0 c = (Inr False, c, ?r0)"
    using ch by (simp add: ensureDeviceChanges_def ensureDeviceChanges_materialised)
  have ch1: "\<forall>ref\<in>set (nc_Changes c).
               \<exists>d. find (\<lambda>d. dc_ID d = ref_ID ref) (deviceChanges r) = Some d \<and>
                   Phase (dc_Status d) = ROLLBACK"
    using ch by blast
  have ch2: "\<forall>ref\<in>set (nc_Changes c).
               \<exists>d. find (\<lambda>d. dc_ID d = ref_ID ref) (deviceChanges r) = Some d \<and>
                   State (dc_Status d) \<noteq> PENDING"
    using ch by fastforce
  have ch3: "\<forall>ref\<in>set (nc_Changes c).
               \<exists>d. find (\<lambda>d. dc_ID d = ref_ID ref) (deviceChanges r) = Some d \<and>
                   State (dc_Status d) = COMPLETE"
    using ch by blast
  have a: "ensureDeviceRollbacks ?r0 c = (Inr False, ?r1)"
    unfolding ensureDeviceRollbacks_def
    using ensureDeviceRollbacks_loop_idle[of "nc_Changes c" ?r0 ?f1 False] ch1 by simp
  have b: "ensureDeviceRollbacksRunning ?r1 c = (Inr False, ?r2)"
    unfolding ensureDeviceRollbacksRunning_def
    using ensureDeviceRollbacksRunning_loop_idle[of "nc_Changes c" ?r1 ?f2 False] ch2 by simp
  have d: "isRollbackComplete ?r2 c = (Inr True, ?r3)"
    unfolding isRollbackComplete_def
    using isRollbackComplete_loop_all[of "nc_Changes c" ?r2 ?f3 0] ch3 by simp
  have u: "networkChanges_Update ?r3 c' = (Inl StoreError, r\<lparr>faults := fs\<rparr>)" for c'
    using networkChanges_Update_fail[of ?r3 fs c'] by simp
  show ?thesis
    by (simp add: Reconcile_def g e ph st reconcileRollback_def a reconcileRunningRollback_def b d u)
qed

theorem rollback_complete_write_failure_witness:
  "faults (rolledBack [False, False, False, False, True, True])
     = replicate (1 + 3 * length [exampleRef ''dc1'' 1 ''d1'']) False @ True # [True] \<and>
   Reconcile (rolledBack [False, False, False, False, True, True]) ''nc1''
     = (Inr False, rolledBack [True])"
proof -
  let ?c = "exampleNetworkChange ''nc1'' 1 [exampleRef ''dc1'' 1 ''d1''] ROLLBACK RUNNING"
  let ?r = "rolledBack [False, False, False, False, True, True]"
  have h1: "find (\<lambda>x. nc_ID x = ''nc1'') (networkChanges ?r) = Some ?c"
    by (simp add: rolledBack_def example_defs)
  have h2: "Phase (nc_Status ?c) = ROLLBACK" and h3: "State (nc_Status ?c) = RUNNING"
    by (simp_all add: example_defs)
  have h4: "\<forall>ref\<in>set (nc_Changes ?c). ref_ID ref \<noteq> [] \<and>
               (\<exists>d. find (\<lambda>d. dc_ID d = ref_ID ref) (deviceChanges ?r) = Some d \<and>
                    Phase (dc_Status d) = ROLLBACK \<and> State (dc_Status d) = COMPLETE)"
    by (simp add: rolledBack_def example_defs)
  have h5: "faults ?r = replicate (1 + 3 * length (nc_Changes ?c)) False @ True # [True]"
    by (simp add: rolledBack_def example_defs numeral_eq_Suc)
  have n: "nc_Changes ?c = [exampleRef ''dc1'' 1 ''d1'']" by (simp add: example_defs)
  have s: "?r\<lparr>faults := [True]\<rparr> = rolledBack [True]"
    by (simp add: rolledBack_def example_defs)
  from rollback_complete_write_failure[OF h1 h2 h3 h4 h5] h5 show ?thesis
    unfolding n s by simp
qed

subsection \<open>C7: admission of a rollback\<close>



subsection \<open>C8: what an error leaves behind\<close>

text \<open>
  C8 does not hold as stated: the device changes written before the failing store call
  stay. Here the parent is read, its device change is created, and the write of the parent
  fails: the call returns the error, and the device-change store, empty before, holds the
  created device change.
\<close>

theorem error_after_create_counterexample:
  "fst (Reconcile (unmaterialised [False, False, True]) ''nc1'') = Inl StoreError \<and>
   deviceChanges (unmaterialised [False, False, True]) = [] \<and>
   deviceChanges (snd (Reconcile (unmaterialised [False, False, True]) ''nc1''))
     = [exampleDeviceChange ''device-change-i'' 1 ''nc1'' ''d1'' CHANGE PENDING]"
  by code_simp

text \<open>
  C8, amended. Whenever \<^verbatim>\<open>Reconcile\<close> ends with an error, the network-change store is
  exactly as it was before the call.
\<close>

theorem error_leaves_network_store:
  "fst (Reconcile r i) = Inl e \<Longrightarrow> networkChanges (snd (Reconcile r i)) = networkChanges r"
proof -
  assume a: "fst (Reconcile r i) = Inl e"
  obtain g r1 where g: "networkChanges_Get r i = (g, r1)" by (cases "networkChanges_Get r i")
  note n1 = net_sameD(1)[OF networkChanges_Get_net_same[OF g]]
  show ?thesis
  proof (cases g)
    case (Inl e')
    with g n1 show ?thesis by (simp add: Reconcile_def)
  next
    case (Inr found)
    show ?thesis
    proof (cases found)
      case None
      with g Inr n1 show ?thesis by (simp add: Reconcile_def)
    next
      case (Some change0)
      obtain x change r2 where x: "ensureDeviceChanges r1 change0 = (x, change, r2)"
        by (cases "ensureDeviceChanges r1 change0")
      show ?thesis
      proof (cases x)
        case (Inl e2)
        with g Inr Some x n1 ensureDeviceChanges_Inl[of r1 change0 e2 change r2]
        show ?thesis by (simp add: Reconcile_def)
      next
        case (Inr succeeded)
        show ?thesis
        proof (cases succeeded)
          case True
          with a g \<open>g = Inr found\<close> Some x Inr show ?thesis by (simp add: Reconcile_def)
        next
          case False
          with x Inr have "ensureDeviceChanges r1 change0 = (Inr False, change, r2)" by simp
          from ensureDeviceChanges_False[OF this] have same: "change = change0" "r2 = r1"
            by simp_all
          obtain y r3 where y: "(case Phase (nc_Status change) of
                                   CHANGE \<Rightarrow> reconcileChange r2 change
                                 | ROLLBACK \<Rightarrow> reconcileRollback r2 change) = (y, r3)"
            by (cases "case Phase (nc_Status change) of
                         CHANGE \<Rightarrow> reconcileChange r2 change
                       | ROLLBACK \<Rightarrow> reconcileRollback r2 change")
          with a g \<open>g = Inr found\<close> Some x Inr False have r: "Reconcile r i = (y, r3)" "y = Inl e"
            by (simp_all add: Reconcile_def)
          from y r(2) have "networkChanges r3 = networkChanges r2"
            by (auto split: Phase.splits dest: reconcileChange_Inl reconcileRollback_Inl)
          with r same n1 show ?thesis by simp
        qed
      qed
    qed
  qed
qed

theorem error_leaves_network_store_witness:
  "fst (Reconcile (unmaterialised [False, False, True]) ''nc1'') = Inl StoreError \<and>
   networkChanges (snd (Reconcile (unmaterialised [False, False, True]) ''nc1''))
     = [exampleNetworkChange ''nc1'' 1 [exampleRef [] 0 ''d1''] CHANGE PENDING]"
proof -
  have e: "fst (Reconcile (unmaterialised [False, False, True]) ''nc1'') = Inl StoreError"
    by code_simp
  have n: "networkChanges (unmaterialised [False, False, True])
             = [exampleNetworkChange ''nc1'' 1 [exampleRef [] 0 ''d1''] CHANGE PENDING]"
    by (simp add: unmaterialised_def example_defs)
  from error_leaves_network_store[OF e] e n show ?thesis by simp
qed

subsection \<open>C9: changeIndex\<close>



subsection \<open>C10: a referenced device change that is absent\<close>

text \<open>
  C10. The code does not do what the claim says: for a ref with an identifier whose
  device change the store does not hold, \<^verbatim>\<open>Get\<close> gives a nil pointer and no error, and the
  reconciler reads \<^verbatim>\<open>Status\<close> through it. In phase CHANGE and state RUNNING, and in phase
  ROLLBACK in states PENDING and RUNNING, the call ends in a nil-pointer panic, not in a
  returned error.
\<close>

theorem missing_child_is_dereferenced:
  "fst (Reconcile (missingChild CHANGE RUNNING) ''nc1'') = Inl NilPanic \<and>
   fst (Reconcile (missingChild ROLLBACK PENDING) ''nc1'') = Inl NilPanic \<and>
   fst (Reconcile (missingChild ROLLBACK RUNNING) ''nc1'') = Inl NilPanic"
  by code_simp

end
